theory Spec2Isabelle
  imports Main "HOL-Library.Sublist" "HOL-Library.AList" "HOL-Library.Multiset"
begin

section \<open>Printago Folder Watch: the mirror synchronisation engine\<close>

text \<open>
  A shallow embedding of \<^verbatim>\<open>printago_watch.py\<close>: the path sanitiser, the folder cache
  with \<^verbatim>\<open>create_folder\<close> and \<^verbatim>\<open>delete_folder\<close>, \<^verbatim>\<open>delete_file\<close>, the planning part
  of \<^verbatim>\<open>initial_sync\<close>, the event handlers and the queue worker.  Remote calls are
  functions on an explicit remote state \<open>'r\<close>; each returns \<open>Inl\<close> with a message where the
  Python raises.  All definitions come first, the theorems follow.
\<close>

subsection \<open>Python strings\<close>

text \<open>\<^verbatim>\<open>str.replace(old, new)\<close>: leftmost, non-overlapping occurrences.\<close>

fun str_replace :: "string \<Rightarrow> string \<Rightarrow> string \<Rightarrow> string" where
  "str_replace old new [] = (if old = [] then new else [])"
| "str_replace old new (c # cs) =
     (if old = [] then new @ c # str_replace old new cs
      else if prefix old (c # cs) then new @ str_replace old new (drop (length old) (c # cs))
      else c # str_replace old new cs)"

text \<open>\<^verbatim>\<open>str.lstrip(chars)\<close> and \<^verbatim>\<open>str.rstrip(chars)\<close>.\<close>

definition lstrip :: "string \<Rightarrow> string \<Rightarrow> string" where
  "lstrip chars s = dropWhile (\<lambda>c. c \<in> set chars) s"

definition rstrip :: "string \<Rightarrow> string \<Rightarrow> string" where
  "rstrip chars s = rev (dropWhile (\<lambda>c. c \<in> set chars) (rev s))"

text \<open>\<^verbatim>\<open>str.split('/')\<close> and \<^verbatim>\<open>'/'.join(parts)\<close>.\<close>

fun split_slash :: "string \<Rightarrow> string list" where
  "split_slash [] = [[]]"
| "split_slash (c # cs) =
     (if c = CHR ''/'' then [] # split_slash cs
      else (case split_slash cs of [] \<Rightarrow> [[c]] | p # ps \<Rightarrow> (c # p) # ps))"

fun join_slash :: "string list \<Rightarrow> string" where
  "join_slash [] = []"
| "join_slash [p] = p"
| "join_slash (p # ps) = p @ ''/'' @ join_slash ps"

text \<open>The backslash and the double quote, which a string literal cannot hold.\<close>

definition backslash :: char where
  "backslash = CHR 0x5C"

definition dquote :: char where
  "dquote = CHR 0x22"

text \<open>\<^verbatim>\<open>PrintagoClient._sanitize_path\<close>.\<close>

definition sanitize_path :: "string \<Rightarrow> string" where
  "sanitize_path path =
     str_replace ''*'' ''_''
      (str_replace ''?'' ''_''
       (str_replace ''|'' ''_''
        (str_replace [dquote] ''_''
         (str_replace '':'' ''_''
          (str_replace ''>'' ''_''
           (str_replace ''<'' ''_''
            (lstrip [CHR ''/'', backslash]
              (str_replace ''..'' [] path))))))))"

text \<open>A recursive test for two adjacent dots, used to reason about the sanitiser.\<close>

fun has_dotdot :: "string \<Rightarrow> bool" where
  "has_dotdot (a # b # cs) = ((a = CHR ''.'' \<and> b = CHR ''.'') \<or> has_dotdot (b # cs))"
| "has_dotdot _ = False"

subsection \<open>\<^verbatim>\<open>os.path\<close> (POSIX flavour)\<close>

text \<open>
  \<^verbatim>\<open>posixpath.basename\<close>: everything after the last slash.
  \<^verbatim>\<open>posixpath.dirname\<close>: everything up to the last slash, with trailing slashes removed
  unless the head consists of slashes only.
  \<^verbatim>\<open>posixpath.splitext\<close>: split at the last dot of the last component, unless only dots
  precede it there.
\<close>

definition basename :: "string \<Rightarrow> string" where
  "basename p = rev (takeWhile (\<lambda>c. c \<noteq> CHR ''/'') (rev p))"

definition dirname :: "string \<Rightarrow> string" where
  "dirname p =
     (let head = rev (dropWhile (\<lambda>c. c \<noteq> CHR ''/'') (rev p))
      in if head \<noteq> [] \<and> \<not> list_all (\<lambda>c. c = CHR ''/'') head then rstrip ''/'' head else head)"

definition splitext :: "string \<Rightarrow> string \<times> string" where
  "splitext p =
     (let name = basename p;
          dir = take (length p - length name) p;
          ext = rev (takeWhile (\<lambda>c. c \<noteq> CHR ''.'') (rev name));
          stem = take (length name - length ext - 1) name
      in if CHR ''.'' \<in> set name \<and> \<not> list_all (\<lambda>c. c = CHR ''.'') stem
         then (dir @ stem, CHR ''.'' # ext) else (p, []))"

subsection \<open>JSON values and dictionaries\<close>

text \<open>
  Identifiers and names arrive as JSON strings or \<^verbatim>\<open>null\<close>; \<^verbatim>\<open>dict.get\<close> gives \<^verbatim>\<open>None\<close> for a
  missing key.  \<open>truthy\<close> is Python's truth value of such a value.
  A \<^verbatim>\<open>dict\<close> is an association list in insertion order; assignment is \<open>AList.update\<close>,
  which keeps the position of a key that is already present.
\<close>

datatype jval = JNull | JStr string

definition truthy :: "jval \<Rightarrow> bool" where
  "truthy v = (case v of JNull \<Rightarrow> False | JStr s \<Rightarrow> s \<noteq> [])"

definition dict_has :: "('k \<times> 'v) list \<Rightarrow> 'k \<Rightarrow> bool" where
  "dict_has d k = (k \<in> set (map fst d))"

definition dict_get_default :: "('k \<times> jval) list \<Rightarrow> 'k \<Rightarrow> jval \<Rightarrow> jval" where
  "dict_get_default d k dflt = (case map_of d k of None \<Rightarrow> dflt | Some v \<Rightarrow> v)"

definition dict_get :: "('k \<times> jval) list \<Rightarrow> 'k \<Rightarrow> jval" where
  "dict_get d k = dict_get_default d k JNull"

type_synonym folder_cache = "(string \<times> jval) list"

type_synonym part = "(string \<times> jval) list"

subsection \<open>The folder cache: \<^verbatim>\<open>create_folder\<close> and \<^verbatim>\<open>delete_folder\<close>\<close>

datatype error =
    FolderCreateFailed string string
  | FolderDeleteFailed string
  | DeleteFailed string

text \<open>
  A creation call that \<^verbatim>\<open>create_folder\<close> issued: the path it was issued for, and the
  \<^verbatim>\<open>name\<close> and \<^verbatim>\<open>parentId\<close> of the request body.
\<close>

record create_call =
  call_path :: string
  call_name :: string
  call_parent :: jval

text \<open>The step \<^verbatim>\<open>current_path = f"{current_path}/{part}"\<close>, or \<^verbatim>\<open>part\<close> from the empty path.\<close>

definition next_path :: "string \<Rightarrow> string \<Rightarrow> string" where
  "next_path current_path part = (if current_path \<noteq> [] then current_path @ ''/'' @ part else part)"

text \<open>
  The \<^verbatim>\<open>for\<close> loop of \<^verbatim>\<open>create_folder\<close> over the remaining parts.  \<open>post\<close> is
  \<^verbatim>\<open>POST /v1/folders\<close> followed by \<^verbatim>\<open>raise_for_status\<close> and \<^verbatim>\<open>folder_data.get('id')\<close>.
  The result holds the returned \<^verbatim>\<open>parent_id\<close> or the exception, the cache, the remote
  state and the creation calls issued, in order.
\<close>

fun create_levels ::
  "('r \<Rightarrow> string \<Rightarrow> jval \<Rightarrow> (string + jval) \<times> 'r) \<Rightarrow> 'r \<Rightarrow> folder_cache \<Rightarrow> jval \<Rightarrow> string
     \<Rightarrow> string list \<Rightarrow> (string + jval) \<times> folder_cache \<times> 'r \<times> create_call list" where
  "create_levels post r cache parent_id current_path [] = (Inr parent_id, cache, r, [])"
| "create_levels post r cache parent_id current_path (part # parts) =
     (let current_path' = next_path current_path part
      in if dict_has cache current_path'
         then create_levels post r cache (dict_get cache current_path') current_path' parts
         else let call = \<lparr>call_path = current_path', call_name = part, call_parent = parent_id\<rparr>
              in (case post r part parent_id of
                    (Inl e, r') \<Rightarrow> (Inl e, cache, r', [call])
                  | (Inr folder_id, r') \<Rightarrow>
                      (case create_levels post r' (AList.update current_path' folder_id cache)
                              folder_id current_path' parts of
                         (res, cache', r'', calls) \<Rightarrow> (res, cache', r'', call # calls))))"

definition create_folder ::
  "('r \<Rightarrow> string \<Rightarrow> jval \<Rightarrow> (string + jval) \<times> 'r) \<Rightarrow> 'r \<Rightarrow> folder_cache \<Rightarrow> string
     \<Rightarrow> (error + jval) \<times> folder_cache \<times> 'r \<times> create_call list" where
  "create_folder post r cache folder_path =
     (if dict_has cache folder_path then (Inr (dict_get cache folder_path), cache, r, [])
      else (case create_levels post r cache JNull [] (split_slash folder_path) of
              (Inl e, cache', r', calls) \<Rightarrow> (Inl (FolderCreateFailed folder_path e), cache', r', calls)
            | (Inr leaf, cache', r', calls) \<Rightarrow> (Inr leaf, cache', r', calls)))"

text \<open>
  \<^verbatim>\<open>delete_folder\<close>: \<open>del\<close> is \<^verbatim>\<open>DELETE /v1/folders/{id}\<close> with \<^verbatim>\<open>raise_for_status\<close>; on
  success the cache keeps the entries whose value differs from the identifier.
\<close>

definition delete_folder ::
  "('r \<Rightarrow> jval \<Rightarrow> (string + unit) \<times> 'r) \<Rightarrow> 'r \<Rightarrow> folder_cache \<Rightarrow> jval
     \<Rightarrow> (error + bool) \<times> folder_cache \<times> 'r" where
  "delete_folder del r cache folder_id =
     (case del r folder_id of
        (Inl e, r') \<Rightarrow> (Inl (FolderDeleteFailed e), cache, r')
      | (Inr u, r') \<Rightarrow> (Inr True, filter (\<lambda>(k, v). v \<noteq> folder_id) cache, r'))"

text \<open>
  The paths the loop of \<^verbatim>\<open>create_folder\<close> visits (the successive values of
  \<^verbatim>\<open>current_path\<close>), and the proper prefixes of a slash-joined path: one for every slash,
  the text before it.  A cache is prefix-closed when it holds every proper prefix of each
  of its keys.
\<close>

fun current_paths :: "string \<Rightarrow> string list \<Rightarrow> string list" where
  "current_paths current_path [] = []"
| "current_paths current_path (part # parts) =
     (let current_path' = next_path current_path part
      in current_path' # current_paths current_path' parts)"

definition proper_prefixes :: "string \<Rightarrow> string list" where
  "proper_prefixes p = map (\<lambda>i. take i p) (filter (\<lambda>i. p ! i = CHR ''/'') [0..<length p])"

definition prefix_closed :: "folder_cache \<Rightarrow> bool" where
  "prefix_closed cache =
     (\<forall>k \<in> set (map fst cache). \<forall>q \<in> set (proper_prefixes k). dict_has cache q)"

text \<open>
  Three remotes to run the functions on: one that answers every creation with an
  identifier made from the folder name, one that does the same but fails for one name,
  and one that accepts every deletion.  The remote state counts the calls.
\<close>

definition name_ids :: "nat \<Rightarrow> string \<Rightarrow> jval \<Rightarrow> (string + jval) \<times> nat" where
  "name_ids r name parent_id = (Inr (JStr (''id-'' @ name)), Suc r)"

definition fail_on :: "string \<Rightarrow> nat \<Rightarrow> string \<Rightarrow> jval \<Rightarrow> (string + jval) \<times> nat" where
  "fail_on bad r name parent_id =
     (if name = bad then (Inl ''HTTP 500'', Suc r) else (Inr (JStr (''id-'' @ name)), Suc r))"

definition accept_delete :: "nat \<Rightarrow> jval \<Rightarrow> (string + unit) \<times> nat" where
  "accept_delete r i = (Inr (), Suc r)"

subsection \<open>\<^verbatim>\<open>delete_file\<close>\<close>

text \<open>
  The answer of \<^verbatim>\<open>GET /v1/parts?name=...\<close> after \<^verbatim>\<open>.json()\<close>: a list of parts, or some
  other JSON value (\<^verbatim>\<open>isinstance(parts, list)\<close> is then false).
\<close>

datatype parts_json = PartsList "part list" | NotAList

text \<open>
  The loop over the listed parts.  \<open>del\<close> is \<^verbatim>\<open>DELETE /v1/parts/{id}\<close> with
  \<^verbatim>\<open>raise_for_status\<close>.  The last component lists the parts for which the request was
  sent, in order; an exception ends the loop.
\<close>

fun delete_matching ::
  "('r \<Rightarrow> jval \<Rightarrow> (string + unit) \<times> 'r) \<Rightarrow> 'r \<Rightarrow> string \<Rightarrow> jval \<Rightarrow> part list
     \<Rightarrow> (string + nat) \<times> 'r \<times> part list" where
  "delete_matching del r part_name folder_id [] = (Inr 0, r, [])"
| "delete_matching del r part_name folder_id (part # parts) =
     (if dict_get part ''name'' = JStr part_name \<and> dict_get part ''folderId'' = folder_id
      then (case del r (dict_get part ''id'') of
              (Inl e, r') \<Rightarrow> (Inl e, r', [part])
            | (Inr u, r') \<Rightarrow>
                (case delete_matching del r' part_name folder_id parts of
                   (Inl e, r'', sent) \<Rightarrow> (Inl e, r'', part # sent)
                 | (Inr deleted_count, r'', sent) \<Rightarrow> (Inr (deleted_count + 1), r'', part # sent)))
      else delete_matching del r part_name folder_id parts)"

text \<open>The part name and the folder identifier that \<^verbatim>\<open>delete_file\<close> derives.\<close>

definition derived_part_name :: "string \<Rightarrow> string" where
  "derived_part_name relative_path = fst (splitext (basename (sanitize_path relative_path)))"

definition derived_folder_path :: "string \<Rightarrow> string" where
  "derived_folder_path relative_path =
     str_replace [backslash] ''/'' (dirname (sanitize_path relative_path))"

definition resolved_folder_id :: "folder_cache \<Rightarrow> string \<Rightarrow> jval" where
  "resolved_folder_id cache relative_path =
     (let folder_path = derived_folder_path relative_path
      in if folder_path \<noteq> [] \<and> dict_has cache folder_path then dict_get cache folder_path
         else JNull)"

definition delete_file ::
  "('r \<Rightarrow> string \<Rightarrow> (string + parts_json) \<times> 'r) \<Rightarrow> ('r \<Rightarrow> jval \<Rightarrow> (string + unit) \<times> 'r)
     \<Rightarrow> 'r \<Rightarrow> folder_cache \<Rightarrow> string \<Rightarrow> (error + bool) \<times> 'r \<times> part list" where
  "delete_file search del r cache relative_path =
     (let part_name = derived_part_name relative_path;
          folder_id = resolved_folder_id cache relative_path
      in case search r part_name of
           (Inl e, r') \<Rightarrow> (Inl (DeleteFailed e), r', [])
         | (Inr NotAList, r') \<Rightarrow> (Inr False, r', [])
         | (Inr (PartsList parts), r') \<Rightarrow>
             (case delete_matching del r' part_name folder_id parts of
                (Inl e, r'', sent) \<Rightarrow> (Inl (DeleteFailed e), r'', sent)
              | (Inr deleted_count, r'', sent) \<Rightarrow> (Inr (deleted_count > 0), r'', sent)))"

subsection \<open>The queue and the planning part of \<^verbatim>\<open>initial_sync\<close>\<close>

text \<open>The items put on \<^verbatim>\<open>upload_queue\<close>: the action tag with its datum.\<close>

datatype action =
    Upload string
  | Delete string
  | DeletePartId jval
  | DeleteFolderId jval

type_synonym key = "string \<times> jval"

text \<open>Step 2: the map from \<^verbatim>\<open>(folder_path, part_name)\<close> to the part identifier.\<close>

definition folder_path_of :: "folder_cache \<Rightarrow> jval \<Rightarrow> string" where
  "folder_path_of cache part_folder_id =
     (if truthy part_folder_id
      then (case find (\<lambda>(fpath, fid). fid = part_folder_id) cache of
              None \<Rightarrow> [] | Some (fpath, fid) \<Rightarrow> fpath)
      else [])"

definition build_printago_map :: "folder_cache \<Rightarrow> part list \<Rightarrow> (key \<times> jval) list" where
  "build_printago_map cache printago_parts =
     fold (\<lambda>part m.
             AList.update
               (folder_path_of cache (dict_get part ''folderId''),
                dict_get_default part ''name'' (JStr []))
               (dict_get part ''id'') m)
          printago_parts []"

text \<open>
  Step 3: the scan.  The input lists what \<^verbatim>\<open>os.walk\<close> yields after the pruning of hidden
  directories: for every directory its \<^verbatim>\<open>root\<close>, the text of
  \<^verbatim>\<open>Path(root).relative_to(watch_path)\<close> (\<^verbatim>\<open>.\<close> for the watch root itself) and its file
  names.  \<^verbatim>\<open>os.path.join(root, file)\<close> puts a slash between the two; the relative path of
  the file is the relative directory, a slash and the file name.
\<close>

definition scan_file ::
  "string \<Rightarrow> string \<Rightarrow> string \<Rightarrow> (key \<times> string) list \<times> string set
     \<Rightarrow> (key \<times> string) list \<times> string set" where
  "scan_file root rel_dir file st =
     (if prefix ''.'' file then st
      else let file_path = root @ ''/'' @ file;
               rel_path = (if rel_dir = ''.'' then file else rel_dir @ ''/'' @ file);
               folder_path = str_replace [backslash] ''/'' (dirname rel_path);
               filename_no_ext = fst (splitext (basename file));
               local_files = AList.update (folder_path, JStr filename_no_ext) file_path (fst st)
           in (local_files, if folder_path \<noteq> [] then insert folder_path (snd st) else snd st))"

definition scan_dir ::
  "string \<times> string \<times> string list \<Rightarrow> (key \<times> string) list \<times> string set
     \<Rightarrow> (key \<times> string) list \<times> string set" where
  "scan_dir entry st =
     (case entry of (root, rel_dir0, files) \<Rightarrow>
        let rel_dir = str_replace [backslash] ''/'' rel_dir0;
            st' = (if rel_dir \<noteq> ''.'' then (fst st, insert rel_dir (snd st)) else st)
        in fold (scan_file root rel_dir0) files st')"

definition scan_local ::
  "(string \<times> string \<times> string list) list \<Rightarrow> (key \<times> string) list \<times> string set" where
  "scan_local walk = fold scan_dir walk ([], {})"

text \<open>
  The iteration order of a Python \<^verbatim>\<open>set\<close> of strings follows the slots of its hash table,
  which depend on the hashes of the process.  \<open>slot\<close> stands for that order: the elements
  are visited by increasing slot.
\<close>

definition py_set_iter :: "(string \<Rightarrow> nat) \<Rightarrow> string list \<Rightarrow> string list" where
  "py_set_iter slot xs = sort_key slot (remdups xs)"

text \<open>Steps 4 to 9: the three lists and the items put on the queue, in order.\<close>

definition to_upload :: "(key \<times> jval) list \<Rightarrow> (key \<times> string) list \<Rightarrow> string list" where
  "to_upload printago_map local_files =
     map snd (filter (\<lambda>(key, file_path). \<not> dict_has printago_map key) local_files)"

definition to_delete :: "(key \<times> jval) list \<Rightarrow> (key \<times> string) list \<Rightarrow> jval list" where
  "to_delete printago_map local_files =
     map snd (filter (\<lambda>(key, part_id). \<not> dict_has local_files key) printago_map)"

definition folders_to_delete :: "(string \<Rightarrow> nat) \<Rightarrow> folder_cache \<Rightarrow> string set \<Rightarrow> string list" where
  "folders_to_delete slot cache all_local_folders =
     py_set_iter slot (filter (\<lambda>k. k \<notin> all_local_folders) (map fst cache))"

definition sync_plan ::
  "(string \<Rightarrow> nat) \<Rightarrow> folder_cache \<Rightarrow> (key \<times> jval) list \<Rightarrow> (key \<times> string) list \<Rightarrow> string set
     \<Rightarrow> action list" where
  "sync_plan slot cache printago_map local_files all_local_folders =
     map Upload (to_upload printago_map local_files)
     @ map DeletePartId (to_delete printago_map local_files)
     @ map DeleteFolderId
         (filter truthy (map (dict_get cache) (folders_to_delete slot cache all_local_folders)))"

definition initial_sync ::
  "(string \<Rightarrow> nat) \<Rightarrow> folder_cache \<Rightarrow> part list \<Rightarrow> (string \<times> string \<times> string list) list
     \<Rightarrow> action list" where
  "initial_sync slot cache printago_parts walk =
     (let printago_map = build_printago_map cache printago_parts;
          scanned = scan_local walk
      in sync_plan slot cache printago_map (fst scanned) (snd scanned))"

text \<open>
  The depth of a slash-joined path, as \<^verbatim>\<open>delete_empty_folders.py\<close> counts it, and the
  order in which that script deletes: \<^verbatim>\<open>to_delete.sort(key=depth, reverse=True)\<close>, a stable
  sort by descending depth.
\<close>

definition depth :: "string \<Rightarrow> nat" where
  "depth folder_path = length (filter (\<lambda>c. c = CHR ''/'') folder_path)"

definition deepest_first :: "string list \<Rightarrow> string list" where
  "deepest_first paths = rev (sort_key depth (rev paths))"

subsection \<open>Event handlers and the worker\<close>

text \<open>A file-system event: its path and whether it is about a directory.\<close>

record fs_event =
  src_path :: string
  is_directory :: bool

definition on_created :: "(string \<Rightarrow> bool) \<Rightarrow> fs_event \<Rightarrow> action list" where
  "on_created is_safe_path event =
     (if \<not> is_directory event \<and> is_safe_path (src_path event) then [Upload (src_path event)] else [])"

definition on_modified :: "(string \<Rightarrow> bool) \<Rightarrow> fs_event \<Rightarrow> action list" where
  "on_modified is_safe_path event =
     (if \<not> is_directory event \<and> is_safe_path (src_path event) then [Upload (src_path event)] else [])"

definition on_deleted :: "(string \<Rightarrow> bool) \<Rightarrow> fs_event \<Rightarrow> action list" where
  "on_deleted is_safe_path event =
     (if \<not> is_directory event \<and> is_safe_path (src_path event) then [Delete (src_path event)] else [])"

text \<open>
  The session around the queue: the items \<^verbatim>\<open>initial_sync\<close> has still to put, the queue,
  the items the worker has taken and applied, oldest first, and the history of all items
  ever put.  \<^verbatim>\<open>Queue.put\<close> appends, \<^verbatim>\<open>Queue.get\<close> takes the head; the worker applies one
  item before it takes the next.  The pass, the event handlers and the worker run in
  threads of their own, so their steps interleave in any order.
\<close>

record session =
  pending :: "action list"
  queue :: "action list"
  applied :: "action list"
  puts :: "action list"

inductive step :: "(string \<Rightarrow> bool) \<Rightarrow> session \<Rightarrow> session \<Rightarrow> bool" for safe where
  sync_put: "pending s = a # rest
     \<Longrightarrow> step safe s (s\<lparr>pending := rest, queue := queue s @ [a], puts := puts s @ [a]\<rparr>)"
| created: "step safe s
     (s\<lparr>queue := queue s @ on_created safe e, puts := puts s @ on_created safe e\<rparr>)"
| modified: "step safe s
     (s\<lparr>queue := queue s @ on_modified safe e, puts := puts s @ on_modified safe e\<rparr>)"
| deleted: "step safe s
     (s\<lparr>queue := queue s @ on_deleted safe e, puts := puts s @ on_deleted safe e\<rparr>)"
| worker_get: "queue s = a # rest
     \<Longrightarrow> step safe s (s\<lparr>queue := rest, applied := applied s @ [a]\<rparr>)"

definition start :: "action list \<Rightarrow> session" where
  "start plan = \<lparr>pending = plan, queue = [], applied = [], puts = []\<rparr>"

definition is_delete_part :: "action \<Rightarrow> bool" where
  "is_delete_part a = (case a of DeletePartId i \<Rightarrow> True | _ \<Rightarrow> False)"

definition is_delete_folder :: "action \<Rightarrow> bool" where
  "is_delete_folder a = (case a of DeleteFolderId i \<Rightarrow> True | _ \<Rightarrow> False)"

definition sync_deletes :: "action list \<Rightarrow> action list" where
  "sync_deletes xs = filter (\<lambda>a. is_delete_part a \<or> is_delete_folder a) xs"

text \<open>The data of the items of each kind in a list of queue items, in order.\<close>

definition uploads_of :: "action list \<Rightarrow> string list" where
  "uploads_of plan = concat (map (\<lambda>a. case a of Upload p \<Rightarrow> [p] | _ \<Rightarrow> []) plan)"

definition part_deletions_of :: "action list \<Rightarrow> jval list" where
  "part_deletions_of plan = concat (map (\<lambda>a. case a of DeletePartId i \<Rightarrow> [i] | _ \<Rightarrow> []) plan)"

definition folder_deletions_of :: "action list \<Rightarrow> jval list" where
  "folder_deletions_of plan = concat (map (\<lambda>a. case a of DeleteFolderId i \<Rightarrow> [i] | _ \<Rightarrow> []) plan)"

text \<open>
  \<^verbatim>\<open>FileWatchHandler._upload_file\<close> and the \<^verbatim>\<open>upload\<close> branch of the worker.  The file
  system is a record of the answers the handler asks for; \<open>client_upload\<close> is
  \<^verbatim>\<open>PrintagoClient.upload_file\<close>.  The result is the log lines and the calls made to the
  client.
\<close>

record fs_env =
  path_exists :: "string \<Rightarrow> bool"
  is_safe_path :: "string \<Rightarrow> bool"
  getsize :: "string \<Rightarrow> string + nat"
  get_relative_path :: "string \<Rightarrow> string + string"

datatype log_line =
    BlockedSuspiciousPath string
  | FileTooLarge string
  | Uploaded string
  | UploadFailed string string

datatype client_call = ClientUploadFile string string

definition max_file_size :: nat where
  "max_file_size = 500 * 1024 * 1024"

definition handler_upload_file ::
  "fs_env \<Rightarrow> (string \<Rightarrow> string \<Rightarrow> string + unit) \<Rightarrow> string \<Rightarrow> log_line list \<times> client_call list" where
  "handler_upload_file env client_upload file_path =
     (if \<not> is_safe_path env file_path then ([BlockedSuspiciousPath file_path], [])
      else (case getsize env file_path of
              Inl e \<Rightarrow> ([UploadFailed file_path e], [])
            | Inr file_size \<Rightarrow>
                if file_size > max_file_size then ([FileTooLarge file_path], [])
                else (case get_relative_path env file_path of
                        Inl e \<Rightarrow> ([UploadFailed file_path e], [])
                      | Inr rel_path \<Rightarrow>
                          (case client_upload rel_path file_path of
                             Inl e \<Rightarrow> ([UploadFailed file_path e], [ClientUploadFile rel_path file_path])
                           | Inr u \<Rightarrow> ([Uploaded file_path], [ClientUploadFile rel_path file_path])))))"

definition worker_upload ::
  "fs_env \<Rightarrow> (string \<Rightarrow> string \<Rightarrow> string + unit) \<Rightarrow> string \<Rightarrow> log_line list \<times> client_call list" where
  "worker_upload env client_upload data =
     (if path_exists env data then handler_upload_file env client_upload data else ([], []))"

text \<open>
  Further examples to run the functions on: a remote that answers every search with a
  given list of parts, a file system that holds one file of a given size inside the
  watched directory \<^verbatim>\<open>/w\<close>, and a client whose upload succeeds.
\<close>

definition answer_parts :: "part list \<Rightarrow> nat \<Rightarrow> string \<Rightarrow> (string + parts_json) \<times> nat" where
  "answer_parts parts r part_name = (Inr (PartsList parts), Suc r)"

definition one_file :: "string \<Rightarrow> nat \<Rightarrow> fs_env" where
  "one_file path bytes =
     \<lparr>path_exists = (\<lambda>p. p = path),
      is_safe_path = prefix ''/w/'',
      getsize = (\<lambda>p. if p = path then Inr bytes else Inl ''No such file or directory''),
      get_relative_path = (\<lambda>p. if prefix ''/w/'' p then Inr (drop 3 p) else Inl ''not in the subpath'')\<rparr>"

definition upload_ok :: "string \<Rightarrow> string \<Rightarrow> string + unit" where
  "upload_ok rel_path file_path = Inr ()"

section \<open>Theorems\<close>

subsection \<open>The sanitiser\<close>

lemma sublist_dotdot: "sublist ''..'' s \<longleftrightarrow> has_dotdot s"
  by (induction s rule: has_dotdot.induct) (auto simp: sublist_Cons_right)

lemma str_replace_char: "str_replace [a] [b] s = map (\<lambda>c. if c = a then b else c) s"
  by (induction s) auto

lemma replace_dotdot_head:
  "str_replace ''..'' [] s = CHR ''.'' # t \<Longrightarrow> \<exists>u. s = CHR ''.'' # u"
  by (cases s) (auto split: if_splits)

lemma replace_dotdot_clean: "\<not> has_dotdot (str_replace ''..'' [] s)"
proof (induction s rule: length_induct)
  case (1 s)
  show ?case
  proof (cases s)
    case Nil
    then show ?thesis by simp
  next
    case (Cons c cs)
    show ?thesis
    proof (cases "prefix ''..'' s")
      case True
      then obtain r where r: "s = ''..'' @ r" by (auto simp: prefix_def)
      then have "str_replace ''..'' [] s = str_replace ''..'' [] r" by simp
      moreover have "length r < length s" using r by simp
      ultimately show ?thesis using 1 by simp
    next
      case False
      then have eq: "str_replace ''..'' [] s = c # str_replace ''..'' [] cs"
        using Cons by auto
      have ih: "\<not> has_dotdot (str_replace ''..'' [] cs)" using 1 Cons by simp
      show ?thesis
      proof (cases "str_replace ''..'' [] cs")
        case Nil
        then show ?thesis using eq by simp
      next
        case (Cons d ds)
        have "\<not> (c = CHR ''.'' \<and> d = CHR ''.'')"
        proof
          assume cd: "c = CHR ''.'' \<and> d = CHR ''.''"
          then obtain u where "cs = CHR ''.'' # u"
            using replace_dotdot_head Cons by blast
          then show False using False cd \<open>s = c # cs\<close> by simp
        qed
        then show ?thesis using eq Cons ih by auto
      qed
    qed
  qed
qed

lemma has_dotdot_dropWhile: "\<not> has_dotdot s \<Longrightarrow> \<not> has_dotdot (dropWhile P s)"
proof (induction s)
  case Nil
  then show ?case by simp
next
  case (Cons a s)
  then show ?case by (cases s) auto
qed

lemma has_dotdot_map:
  "(\<And>c. f c = CHR ''.'' \<Longrightarrow> c = CHR ''.'') \<Longrightarrow> \<not> has_dotdot s \<Longrightarrow> \<not> has_dotdot (map f s)"
  by (induction s rule: has_dotdot.induct) auto

lemma has_dotdot_replace_char:
  "b \<noteq> CHR ''.'' \<Longrightarrow> \<not> has_dotdot s \<Longrightarrow> \<not> has_dotdot (str_replace [a] [b] s)"
  unfolding str_replace_char by (rule has_dotdot_map) (auto split: if_splits)

lemma sanitize_no_dotdot: "\<not> has_dotdot (sanitize_path p)"
  unfolding sanitize_path_def lstrip_def
  by (intro has_dotdot_replace_char has_dotdot_dropWhile replace_dotdot_clean) simp_all

lemma hd_replace_char:
  "b \<noteq> x \<Longrightarrow> a \<noteq> x \<Longrightarrow> prefix [x] (str_replace [a] [b] s) \<longleftrightarrow> prefix [x] s"
  unfolding str_replace_char by (cases s) auto

lemma lstrip_head: "x \<in> set chars \<Longrightarrow> \<not> prefix [x] (lstrip chars s)"
  unfolding lstrip_def
  by (metis (mono_tags, lifting) append_Cons dropWhile_eq_Cons_conv prefix_def)

text \<open>
  C10.  For every input string, the result of \<^verbatim>\<open>_sanitize_path\<close> contains no two
  adjacent dots and begins neither with a slash nor with a backslash.
\<close>

theorem sanitize_path_safe:
  "\<not> sublist ''..'' (sanitize_path p)
   \<and> \<not> prefix ''/'' (sanitize_path p)
   \<and> \<not> prefix [backslash] (sanitize_path p)"
proof -
  have "\<not> prefix ''/'' (sanitize_path p)"
    unfolding sanitize_path_def by (simp add: hd_replace_char lstrip_head backslash_def dquote_def)
  moreover have "\<not> prefix [backslash] (sanitize_path p)"
    unfolding sanitize_path_def by (simp add: hd_replace_char lstrip_head backslash_def dquote_def)
  ultimately show ?thesis
    by (simp add: sublist_dotdot sanitize_no_dotdot)
qed

subsection \<open>The plan\<close>

lemma uploads_of_append: "uploads_of (xs @ ys) = uploads_of xs @ uploads_of ys"
  by (simp add: uploads_of_def)

lemma part_deletions_of_append:
  "part_deletions_of (xs @ ys) = part_deletions_of xs @ part_deletions_of ys"
  by (simp add: part_deletions_of_def)

lemma folder_deletions_of_append:
  "folder_deletions_of (xs @ ys) = folder_deletions_of xs @ folder_deletions_of ys"
  by (simp add: folder_deletions_of_def)

lemma projections_uploads:
  "uploads_of (map Upload us) = us"
  "part_deletions_of (map Upload us) = []"
  "folder_deletions_of (map Upload us) = []"
  by (induction us) (simp_all add: uploads_of_def part_deletions_of_def folder_deletions_of_def)

lemma projections_part_deletions:
  "uploads_of (map DeletePartId ds) = []"
  "part_deletions_of (map DeletePartId ds) = ds"
  "folder_deletions_of (map DeletePartId ds) = []"
  by (induction ds) (simp_all add: uploads_of_def part_deletions_of_def folder_deletions_of_def)

lemma projections_folder_deletions:
  "uploads_of (map DeleteFolderId fs) = []"
  "part_deletions_of (map DeleteFolderId fs) = []"
  "folder_deletions_of (map DeleteFolderId fs) = fs"
  by (induction fs) (simp_all add: uploads_of_def part_deletions_of_def folder_deletions_of_def)

lemmas projections_map =
  projections_uploads projections_part_deletions projections_folder_deletions

lemma plan_projections:
  "uploads_of (sync_plan slot cache R L F) = to_upload R L"
  "part_deletions_of (sync_plan slot cache R L F) = to_delete R L"
  by (simp_all add: sync_plan_def uploads_of_append part_deletions_of_append projections_map)

lemma dict_values_by_key:
  "distinct (map fst xs) \<Longrightarrow>
   mset (map snd (filter (\<lambda>(k, v). P k) xs))
   = image_mset (\<lambda>k. the (map_of xs k)) (mset_set {k \<in> fst ` set xs. P k})"
proof (induction xs)
  case Nil
  then show ?case by simp
next
  case (Cons x xs)
  obtain k v where x: "x = (k, v)" by (cases x)
  let ?S = "{k' \<in> fst ` set xs. P k'}"
  have fin: "finite ?S" by simp
  have notin: "k \<notin> ?S" using Cons.prems x by auto
  have ih: "mset (map snd (filter (\<lambda>(k, v). P k) xs))
            = image_mset (\<lambda>k. the (map_of xs k)) (mset_set ?S)"
    using Cons by simp
  have same: "image_mset (\<lambda>k'. the (map_of (x # xs) k')) (mset_set ?S)
              = image_mset (\<lambda>k'. the (map_of xs k')) (mset_set ?S)"
    by (rule image_mset_cong) (use notin x in auto)
  show ?case
  proof (cases "P k")
    case True
    then have "{k' \<in> fst ` set (x # xs). P k'} = insert k ?S" using x by auto
    then show ?thesis using True x ih same notin fin by simp
  next
    case False
    then have "{k' \<in> fst ` set (x # xs). P k'} = ?S" using x by auto
    then show ?thesis using False x ih same by simp
  qed
qed

lemma dict_has_dom: "dict_has d k \<longleftrightarrow> k \<in> dom (map_of d)"
  by (simp add: dict_has_def dom_map_of_conv_image_fst)

lemma to_upload_mset:
  assumes "distinct (map fst local_files)"
  shows "mset (to_upload printago_map local_files)
         = image_mset (\<lambda>key. the (map_of local_files key))
             (mset_set (dom (map_of local_files) - dom (map_of printago_map)))"
proof -
  have "{k \<in> fst ` set local_files. \<not> dict_has printago_map k}
        = dom (map_of local_files) - dom (map_of printago_map)"
    by (auto simp: dict_has_dom dom_map_of_conv_image_fst)
  then show ?thesis
    unfolding to_upload_def
    using dict_values_by_key [OF assms, of "\<lambda>k. \<not> dict_has printago_map k"] by simp
qed

lemma to_delete_mset:
  assumes "distinct (map fst printago_map)"
  shows "mset (to_delete printago_map local_files)
         = image_mset (\<lambda>key. the (map_of printago_map key))
             (mset_set (dom (map_of printago_map) - dom (map_of local_files)))"
proof -
  have "{k \<in> fst ` set printago_map. \<not> dict_has local_files k}
        = dom (map_of printago_map) - dom (map_of local_files)"
    by (auto simp: dict_has_dom dom_map_of_conv_image_fst)
  then show ?thesis
    unfolding to_delete_def
    using dict_values_by_key [OF assms, of "\<lambda>k. \<not> dict_has local_files k"] by simp
qed

text \<open>
  C2.  With both indexes being dictionaries (no key twice), the uploads of the plan are,
  as a multiset, the local paths of exactly the keys present in the local file index and
  absent from the remote part index, one upload for each such key; the part deletions are
  the identifiers of exactly the keys present in the remote part index and absent from the
  local file index, one for each.
\<close>

theorem sync_plan_uploads_and_part_deletions:
  assumes "distinct (map fst local_files)" and "distinct (map fst printago_map)"
  shows "mset (uploads_of (sync_plan slot cache printago_map local_files all_local_folders))
         = image_mset (\<lambda>key. the (map_of local_files key))
             (mset_set (dom (map_of local_files) - dom (map_of printago_map)))
       \<and> mset (part_deletions_of (sync_plan slot cache printago_map local_files all_local_folders))
         = image_mset (\<lambda>key. the (map_of printago_map key))
             (mset_set (dom (map_of printago_map) - dom (map_of local_files)))"
  unfolding plan_projections
  using to_upload_mset [OF assms(1)] to_delete_mset [OF assms(2)] by simp

text \<open>
  The example of the specification: remote keys \<open>(\<emptyset>, A)\<close> and \<open>(X, B)\<close>, local keys
  \<open>(\<emptyset>, A)\<close> and \<open>(X, C)\<close>, folder \<open>X\<close> on both sides.  The plan is one upload of the
  local \<open>X/C\<close> and one deletion of the part at \<open>(X, B)\<close>, with no folder deletion.
\<close>

theorem sync_plan_uploads_and_part_deletions_witness:
  "distinct (map fst [(([], JStr ''A''), ''/w/A.stl''), ((''X'', JStr ''C''), ''/w/X/C.stl'')])
   \<and> distinct (map fst [(([], JStr ''A''), JStr ''p1''), ((''X'', JStr ''B''), JStr ''p2'')])
   \<and> sync_plan length [(''X'', JStr ''fx'')]
        [(([], JStr ''A''), JStr ''p1''), ((''X'', JStr ''B''), JStr ''p2'')]
        [(([], JStr ''A''), ''/w/A.stl''), ((''X'', JStr ''C''), ''/w/X/C.stl'')] {''X''}
      = [Upload ''/w/X/C.stl'', DeletePartId (JStr ''p2'')]
   \<and> mset (uploads_of [Upload ''/w/X/C.stl'', DeletePartId (JStr ''p2'')])
      = image_mset (\<lambda>key. the (map_of [(([], JStr ''A''), ''/w/A.stl''), ((''X'', JStr ''C''), ''/w/X/C.stl'')] key))
          (mset_set (dom (map_of [(([], JStr ''A''), ''/w/A.stl''), ((''X'', JStr ''C''), ''/w/X/C.stl'')])
                     - dom (map_of [(([], JStr ''A''), JStr ''p1''), ((''X'', JStr ''B''), JStr ''p2'')])))"
proof -
  let ?L = "[(([], JStr ''A''), ''/w/A.stl''), ((''X'', JStr ''C''), ''/w/X/C.stl'')]"
  let ?R = "[(([], JStr ''A''), JStr ''p1''), ((''X'', JStr ''B''), JStr ''p2'')]"
  have dl: "distinct (map fst ?L)" by simp
  have dr: "distinct (map fst ?R)" by simp
  have plan: "sync_plan length [(''X'', JStr ''fx'')] ?R ?L {''X''}
              = [Upload ''/w/X/C.stl'', DeletePartId (JStr ''p2'')]"
    by (simp add: sync_plan_def to_upload_def to_delete_def folders_to_delete_def
          py_set_iter_def dict_has_def)
  from sync_plan_uploads_and_part_deletions [OF dl dr, of length "[(''X'', JStr ''fx'')]" "{''X''}"]
  show ?thesis using dl dr plan by simp
qed











lemma deepest_first_sorted: "sorted (rev (map depth (deepest_first paths)))"
  by (simp add: deepest_first_def rev_map)

lemma deepest_first_set: "set (deepest_first paths) = set paths"
  by (simp add: deepest_first_def)

text \<open>
  C1.  Remote folders \<open>X\<close> and \<open>X/Y\<close>, both absent locally.  The folders to delete are
  iterated as a Python set; with an order in which \<open>X\<close> comes first, the plan puts the
  deletion of \<open>X\<close> before the deletion of the deeper \<open>X/Y\<close>: nothing in \<^verbatim>\<open>initial_sync\<close>
  orders the folders by depth.  The sort of \<^verbatim>\<open>delete_empty_folders.py\<close> puts \<open>X/Y\<close> first.
\<close>

theorem folder_deletions_not_deepest_first:
  "initial_sync length [(''X'', JStr ''fx''), (''X/Y'', JStr ''fy'')] [] [(''/w'', ''.'', [])]
   = [DeleteFolderId (JStr ''fx''), DeleteFolderId (JStr ''fy'')]
   \<and> depth ''X'' < depth ''X/Y''
   \<and> deepest_first [''X'', ''X/Y''] = [''X/Y'', ''X'']"
  by (simp add: initial_sync_def sync_plan_def build_printago_map_def scan_local_def scan_dir_def
        to_upload_def to_delete_def folders_to_delete_def py_set_iter_def dict_get_def
        dict_get_default_def truthy_def depth_def deepest_first_def)

subsection \<open>The queue\<close>

lemma sync_deletes_append: "sync_deletes (xs @ ys) = sync_deletes xs @ sync_deletes ys"
  by (simp add: sync_deletes_def)

lemma sync_deletes_handlers:
  "sync_deletes (on_created safe e) = []"
  "sync_deletes (on_modified safe e) = []"
  "sync_deletes (on_deleted safe e) = []"
  by (simp_all add: sync_deletes_def on_created_def on_modified_def on_deleted_def
        is_delete_part_def is_delete_folder_def)

lemma step_keeps_sync_deletes:
  "step safe s s' \<Longrightarrow>
   sync_deletes (applied s' @ queue s' @ pending s') = sync_deletes (applied s @ queue s @ pending s)"
  by (induction rule: step.induct) (simp_all add: sync_deletes_append sync_deletes_handlers)

lemma steps_keep_sync_deletes:
  "(step safe)\<^sup>*\<^sup>* s s' \<Longrightarrow>
   sync_deletes (applied s' @ queue s' @ pending s') = sync_deletes (applied s @ queue s @ pending s)"
  by (induction rule: rtranclp_induct) (simp_all add: step_keeps_sync_deletes)

lemma step_fifo: "step safe s s' \<Longrightarrow> applied s @ queue s = puts s \<Longrightarrow> applied s' @ queue s' = puts s'"
  by (induction rule: step.induct) auto

lemma steps_fifo:
  "(step safe)\<^sup>*\<^sup>* s s' \<Longrightarrow> applied s @ queue s = puts s \<Longrightarrow> applied s' @ queue s' = puts s'"
  by (induction rule: rtranclp_induct) (simp_all add: step_fifo)

lemma sync_deletes_plan:
  "sync_deletes (map Upload us @ map DeletePartId ds @ map DeleteFolderId fs)
   = map DeletePartId ds @ map DeleteFolderId fs"
  by (simp add: sync_deletes_def is_delete_part_def is_delete_folder_def filter_empty_conv)

lemma parts_before_folder:
  "A @ DeleteFolderId f # B = map DeletePartId ds @ map DeleteFolderId fs
   \<Longrightarrow> set (map DeletePartId ds) \<subseteq> set A \<and> (\<forall>a \<in> set B. \<not> is_delete_part a)"
proof (induction ds arbitrary: A)
  case Nil
  then have "set (A @ DeleteFolderId f # B) = set (map DeleteFolderId fs)"
    by simp
  then have "set B \<subseteq> DeleteFolderId ` set fs"
    by auto
  then show ?case by (auto simp: is_delete_part_def)
next
  case (Cons d ds)
  then obtain A' where A: "A = DeletePartId d # A'"
    by (cases A) auto
  with Cons.prems have "A' @ DeleteFolderId f # B = map DeletePartId ds @ map DeleteFolderId fs"
    by simp
  from Cons.IH [OF this] show ?case using A by auto
qed

lemma sync_deletes_subset: "set (sync_deletes xs) \<subseteq> set xs"
  by (simp add: sync_deletes_def)

lemma sync_deletes_keeps_parts: "a \<in> set xs \<Longrightarrow> is_delete_part a \<Longrightarrow> a \<in> set (sync_deletes xs)"
  by (simp add: sync_deletes_def)

lemma parts_before_folder_in:
  assumes "sync_deletes (xs @ rest) = map DeletePartId ds @ map DeleteFolderId fs"
    and "xs = before @ DeleteFolderId folder_id # after"
  shows "DeletePartId ` set ds \<subseteq> set before \<and> (\<forall>a \<in> set (after @ rest). \<not> is_delete_part a)"
proof -
  have "sync_deletes before @ DeleteFolderId folder_id # sync_deletes (after @ rest)
        = map DeletePartId ds @ map DeleteFolderId fs"
    using assms by (simp add: sync_deletes_def is_delete_folder_def)
  from parts_before_folder [OF this]
  have 1: "set (map DeletePartId ds) \<subseteq> set (sync_deletes before)"
    and 2: "\<forall>a \<in> set (sync_deletes (after @ rest)). \<not> is_delete_part a" by auto
  from 1 have "DeletePartId ` set ds \<subseteq> set before"
    using sync_deletes_subset [of before] by auto
  moreover from 2 have "\<forall>a \<in> set (after @ rest). \<not> is_delete_part a"
    using sync_deletes_keeps_parts [of _ "after @ rest"] by blast
  ultimately show ?thesis by blast
qed

text \<open>
  C5.  In every state the session reaches from the start of a reconciliation pass,
  whatever the interleaving of the pass, the event handlers and the worker:
  the worker has applied the items in the order in which they were put (the applied
  items followed by the queue are the history of the puts); when a folder deletion has
  been put, every part deletion of the pass was put before it and none is put later;
  and when the worker has applied a folder deletion, every part deletion of the pass was
  applied before it, and none is applied later, queued or still to be put.
\<close>

theorem part_deletions_before_folder_deletions:
  assumes "(step safe)\<^sup>*\<^sup>*
             (start (sync_plan slot cache printago_map local_files all_local_folders)) s"
  shows "applied s @ queue s = puts s
       \<and> (\<forall>before folder_id after. puts s = before @ DeleteFolderId folder_id # after \<longrightarrow>
             DeletePartId ` set (to_delete printago_map local_files) \<subseteq> set before
             \<and> (\<forall>a \<in> set (after @ pending s). \<not> is_delete_part a))
       \<and> (\<forall>before folder_id after. applied s = before @ DeleteFolderId folder_id # after \<longrightarrow>
             DeletePartId ` set (to_delete printago_map local_files) \<subseteq> set before
             \<and> (\<forall>a \<in> set (after @ queue s @ pending s). \<not> is_delete_part a))"
proof -
  let ?ds = "to_delete printago_map local_files"
  let ?fs = "filter truthy (map (dict_get cache) (folders_to_delete slot cache all_local_folders))"
  have fifo: "applied s @ queue s = puts s"
    using steps_fifo [OF assms] by (simp add: start_def)
  have inv: "sync_deletes (applied s @ queue s @ pending s)
             = map DeletePartId ?ds @ map DeleteFolderId ?fs"
    using steps_keep_sync_deletes [OF assms]
    by (simp add: sync_plan_def sync_deletes_plan start_def)
  have inv': "sync_deletes (puts s @ pending s) = map DeletePartId ?ds @ map DeleteFolderId ?fs"
    using inv fifo [symmetric] by simp
  have a: "DeletePartId ` set ?ds \<subseteq> set before
           \<and> (\<forall>a \<in> set (after @ pending s). \<not> is_delete_part a)"
    if "puts s = before @ DeleteFolderId folder_id # after" for before folder_id after
    by (rule parts_before_folder_in [OF inv' that])
  have b: "DeletePartId ` set ?ds \<subseteq> set before
           \<and> (\<forall>a \<in> set (after @ queue s @ pending s). \<not> is_delete_part a)"
    if "applied s = before @ DeleteFolderId folder_id # after" for before folder_id after
    by (rule parts_before_folder_in [OF inv that])
  have A: "\<forall>before folder_id after. puts s = before @ DeleteFolderId folder_id # after \<longrightarrow>
             DeletePartId ` set ?ds \<subseteq> set before
             \<and> (\<forall>a \<in> set (after @ pending s). \<not> is_delete_part a)"
    by (intro allI impI) (rule a)
  have B: "\<forall>before folder_id after. applied s = before @ DeleteFolderId folder_id # after \<longrightarrow>
             DeletePartId ` set ?ds \<subseteq> set before
             \<and> (\<forall>a \<in> set (after @ queue s @ pending s). \<not> is_delete_part a)"
    by (intro allI impI) (rule b)
  from fifo A B show ?thesis by (intro conjI)
qed

theorem part_deletions_before_folder_deletions_witness:
  "(step (\<lambda>p. True))\<^sup>*\<^sup>*
     (start (sync_plan length [(''X'', JStr ''fx'')] [((''X'', JStr ''B''), JStr ''p2'')] [] {}))
     \<lparr>pending = [], queue = [],
      applied = [DeletePartId (JStr ''p2''), DeleteFolderId (JStr ''fx'')],
      puts = [DeletePartId (JStr ''p2''), DeleteFolderId (JStr ''fx'')]\<rparr>
   \<and> DeletePartId ` set (to_delete [((''X'', JStr ''B''), JStr ''p2'')] [])
       \<subseteq> set [DeletePartId (JStr ''p2'')]
   \<and> to_delete [((''X'', JStr ''B''), JStr ''p2'')] [] = [JStr ''p2'']"
proof -
  let ?dp = "DeletePartId (JStr ''p2'')" and ?df = "DeleteFolderId (JStr ''fx'')"
  let ?safe = "\<lambda>p::string. True"
  let ?s0 = "\<lparr>pending = [?dp, ?df], queue = [], applied = [], puts = []\<rparr>"
  let ?s1 = "\<lparr>pending = [?df], queue = [?dp], applied = [], puts = [?dp]\<rparr>"
  let ?s2 = "\<lparr>pending = [], queue = [?dp, ?df], applied = [], puts = [?dp, ?df]\<rparr>"
  let ?s3 = "\<lparr>pending = [], queue = [?df], applied = [?dp], puts = [?dp, ?df]\<rparr>"
  let ?s4 = "\<lparr>pending = [], queue = [], applied = [?dp, ?df], puts = [?dp, ?df]\<rparr>"
  have plan: "start (sync_plan length [(''X'', JStr ''fx'')] [((''X'', JStr ''B''), JStr ''p2'')] [] {}) = ?s0"
    by (simp add: start_def sync_plan_def to_upload_def to_delete_def folders_to_delete_def
          py_set_iter_def dict_has_def dict_get_def dict_get_default_def truthy_def)
  have "step ?safe ?s0 ?s1" using sync_put [of ?s0 ?dp "[?df]" ?safe] by simp
  then have r1: "(step ?safe)\<^sup>*\<^sup>* ?s0 ?s1" by (rule r_into_rtranclp)
  have "step ?safe ?s1 ?s2" using sync_put [of ?s1 ?df "[]" ?safe] by simp
  with r1 have r2: "(step ?safe)\<^sup>*\<^sup>* ?s0 ?s2" by (rule rtranclp.rtrancl_into_rtrancl)
  have "step ?safe ?s2 ?s3" using worker_get [of ?s2 ?dp "[?df]" ?safe] by simp
  with r2 have r3: "(step ?safe)\<^sup>*\<^sup>* ?s0 ?s3" by (rule rtranclp.rtrancl_into_rtrancl)
  have "step ?safe ?s3 ?s4" using worker_get [of ?s3 ?df "[]" ?safe] by simp
  with r3 have r4: "(step ?safe)\<^sup>*\<^sup>* ?s0 ?s4" by (rule rtranclp.rtrancl_into_rtrancl)
  have reach: "(step ?safe)\<^sup>*\<^sup>*
      (start (sync_plan length [(''X'', JStr ''fx'')] [((''X'', JStr ''B''), JStr ''p2'')] [] {})) ?s4"
    unfolding plan by (rule r4)
  have app: "applied ?s4 = [?dp] @ ?df # []" by simp
  from part_deletions_before_folder_deletions [OF reach]
  have "\<forall>before folder_id after. applied ?s4 = before @ DeleteFolderId folder_id # after \<longrightarrow>
          DeletePartId ` set (to_delete [((''X'', JStr ''B''), JStr ''p2'')] []) \<subseteq> set before
          \<and> (\<forall>a \<in> set (after @ queue ?s4 @ pending ?s4). \<not> is_delete_part a)"
    by (rule conjunct2 [THEN conjunct2])
  from this [rule_format, OF app]
  have sub: "DeletePartId ` set (to_delete [((''X'', JStr ''B''), JStr ''p2'')] [])
             \<subseteq> set [DeletePartId (JStr ''p2'')]"
    by (rule conjunct1)
  have td: "to_delete [((''X'', JStr ''B''), JStr ''p2'')] [] = [JStr ''p2'']"
    by (simp add: to_delete_def dict_has_def)
  from reach sub td show ?thesis by (intro conjI)
qed

subsection \<open>The folder cache\<close>

lemma dict_has_map_of: "dict_has d k \<longleftrightarrow> map_of d k \<noteq> None"
  by (simp add: dict_has_def map_of_eq_None_iff)

lemma dict_get_Some: "map_of d k = Some v \<Longrightarrow> dict_get d k = v"
  by (simp add: dict_get_def dict_get_default_def)

lemma dict_has_update: "dict_has (AList.update k v d) k' \<longleftrightarrow> k' = k \<or> dict_has d k'"
  by (auto simp: dict_has_map_of update_conv')

lemma dict_get_update: "dict_get (AList.update k v d) k = v"
  by (simp add: dict_get_def dict_get_default_def update_conv')

text \<open>The three ways one round of the loop of \<^verbatim>\<open>create_folder\<close> can go.\<close>

lemma create_levels_hit:
  "dict_has c (next_path cur part) \<Longrightarrow>
   create_levels post r c p cur (part # parts)
   = create_levels post r c (dict_get c (next_path cur part)) (next_path cur part) parts"
  by (simp add: Let_def)

lemma create_levels_fail:
  "\<not> dict_has c (next_path cur part) \<Longrightarrow> post r part p = (Inl e, r') \<Longrightarrow>
   create_levels post r c p cur (part # parts)
   = (Inl e, c, r', [\<lparr>call_path = next_path cur part, call_name = part, call_parent = p\<rparr>])"
  by (simp add: Let_def)

lemma create_levels_created:
  "\<not> dict_has c (next_path cur part) \<Longrightarrow> post r part p = (Inr fid, r') \<Longrightarrow>
   create_levels post r' (AList.update (next_path cur part) fid c) fid (next_path cur part) parts
     = (res, c1, r1, calls) \<Longrightarrow>
   create_levels post r c p cur (part # parts)
   = (res, c1, r1, \<lparr>call_path = next_path cur part, call_name = part, call_parent = p\<rparr> # calls)"
  by (simp add: Let_def)

declare create_levels.simps(2) [simp del]

lemma create_levels_cases [consumes 1, case_names Nil Hit Fail Created]:
  assumes run: "create_levels post r c p cur parts = (res, c1, r1, calls)"
    and Nil: "\<And>r c p cur. P r c p cur [] (Inr p) c r []"
    and Hit: "\<And>r c p cur part parts res c1 r1 calls.
        dict_has c (next_path cur part) \<Longrightarrow>
        create_levels post r c (dict_get c (next_path cur part)) (next_path cur part) parts
          = (res, c1, r1, calls) \<Longrightarrow>
        P r c (dict_get c (next_path cur part)) (next_path cur part) parts res c1 r1 calls \<Longrightarrow>
        P r c p cur (part # parts) res c1 r1 calls"
    and Fail: "\<And>r c p cur part parts e r'.
        \<not> dict_has c (next_path cur part) \<Longrightarrow> post r part p = (Inl e, r') \<Longrightarrow>
        P r c p cur (part # parts) (Inl e) c r'
          [\<lparr>call_path = next_path cur part, call_name = part, call_parent = p\<rparr>]"
    and Created: "\<And>r c p cur part parts fid r' res c1 r1 calls.
        \<not> dict_has c (next_path cur part) \<Longrightarrow> post r part p = (Inr fid, r') \<Longrightarrow>
        create_levels post r' (AList.update (next_path cur part) fid c) fid (next_path cur part) parts
          = (res, c1, r1, calls) \<Longrightarrow>
        P r' (AList.update (next_path cur part) fid c) fid (next_path cur part) parts res c1 r1 calls \<Longrightarrow>
        P r c p cur (part # parts) res c1 r1
          (\<lparr>call_path = next_path cur part, call_name = part, call_parent = p\<rparr> # calls)"
  shows "P r c p cur parts res c1 r1 calls"
  using run
proof (induction parts arbitrary: r c p cur res c1 r1 calls)
  case Nil
  then show ?case using assms(2) by auto
next
  case (Cons part parts)
  show ?case
  proof (cases "dict_has c (next_path cur part)")
    case True
    have rec:
      "create_levels post r c (dict_get c (next_path cur part)) (next_path cur part) parts
       = (res, c1, r1, calls)"
      using Cons.prems unfolding create_levels_hit [OF True] .
    from Hit [OF True rec Cons.IH [OF rec]] show ?thesis .
  next
    case False
    obtain resp r' where post: "post r part p = (resp, r')" by (cases "post r part p")
    show ?thesis
    proof (cases resp)
      case (Inl e)
      with post have post': "post r part p = (Inl e, r')" by simp
      have "(res, c1, r1, calls)
         = (Inl e, c, r', [\<lparr>call_path = next_path cur part, call_name = part, call_parent = p\<rparr>])"
        using Cons.prems unfolding create_levels_fail [where post = post, OF False post'] by simp
      with Fail [OF False post', of parts] show ?thesis by simp
    next
      case (Inr fid)
      obtain res' c' r'' calls' where rec:
        "create_levels post r' (AList.update (next_path cur part) fid c) fid (next_path cur part) parts
         = (res', c', r'', calls')"
        using prod_cases4 by blast
      from post Inr have post': "post r part p = (Inr fid, r')" by simp
      have "P r c p cur (part # parts) res' c' r''
              (\<lparr>call_path = next_path cur part, call_name = part, call_parent = p\<rparr> # calls')"
        by (rule Created [OF False post' rec Cons.IH [OF rec]])
      moreover have "(res, c1, r1, calls)
         = (res', c', r'', \<lparr>call_path = next_path cur part, call_name = part, call_parent = p\<rparr> # calls')"
        using Cons.prems unfolding create_levels_created [where post = post, OF False post' rec] by simp
      ultimately show ?thesis by simp
    qed
  qed
qed

lemma create_levels_mono:
  "create_levels post r c p cur parts = (res, c1, r1, calls)
   \<Longrightarrow> map_of c k = Some v \<Longrightarrow> map_of c1 k = Some v"
proof (induction rule: create_levels_cases)
  case (Created r c p cur part parts fid r' res c1 r1 calls)
  then have "k \<noteq> next_path cur part" by (auto simp: dict_has_map_of)
  with Created show ?case by (simp add: update_conv')
qed auto

lemma create_levels_failure_calls:
  "create_levels post r c p cur parts = (res, c1, r1, calls) \<Longrightarrow> res = Inl e \<Longrightarrow> calls \<noteq> []"
  by (induction rule: create_levels_cases) auto

lemma create_levels_failure_cache:
  "create_levels post r c p cur parts = (res, c1, r1, calls) \<Longrightarrow> res = Inl e \<Longrightarrow>
   (\<forall>x \<in> set (butlast calls). dict_has c1 (call_path x)) \<and> \<not> dict_has c1 (call_path (last calls))"
proof (induction rule: create_levels_cases)
  case (Created r c p cur part parts fid r' res c1 r1 calls)
  have ne: "calls \<noteq> []" by (rule create_levels_failure_calls [OF Created(3) Created(5)])
  have "map_of (AList.update (next_path cur part) fid c) (next_path cur part) = Some fid"
    by (simp add: update_conv')
  then have hit: "dict_has c1 (next_path cur part)"
    using create_levels_mono [OF Created(3)] by (simp add: dict_has_map_of)
  from Created(4) [OF Created(5)] show ?case using ne hit by simp
qed simp_all

lemma create_levels_success_paths:
  "create_levels post r c p cur parts = (res, c1, r1, calls) \<Longrightarrow> res = Inr v \<Longrightarrow>
   (\<forall>x \<in> set (current_paths cur parts). dict_has c1 x)
   \<and> (parts \<noteq> [] \<longrightarrow> dict_get c1 (last (current_paths cur parts)) = v)"
proof (induction rule: create_levels_cases)
  case (Nil r c p cur)
  then show ?case by simp
next
  case (Hit r c p cur part parts res c1 r1 calls)
  obtain w where w: "map_of c (next_path cur part) = Some w"
    using Hit(1) by (auto simp: dict_has_map_of)
  then have w1: "map_of c1 (next_path cur part) = Some w"
    using create_levels_mono [OF Hit(2)] by simp
  show ?case
  proof (cases parts)
    case Nil
    with Hit w w1 show ?thesis by (auto simp: dict_has_map_of dict_get_Some)
  next
    case (Cons a list)
    with Hit w1 show ?thesis by (auto simp: dict_has_map_of Let_def)
  qed
next
  case (Fail r c p cur part parts e r')
  then show ?case by simp
next
  case (Created r c p cur part parts fid r' res c1 r1 calls)
  have "map_of (AList.update (next_path cur part) fid c) (next_path cur part) = Some fid"
    by (simp add: update_conv')
  then have w1: "map_of c1 (next_path cur part) = Some fid"
    using create_levels_mono [OF Created(3)] by simp
  show ?case
  proof (cases parts)
    case Nil
    with Created w1 show ?thesis by (auto simp: dict_has_map_of dict_get_Some)
  next
    case (Cons a list)
    with Created w1 show ?thesis by (auto simp: dict_has_map_of Let_def)
  qed
qed

lemma create_levels_calls:
  "create_levels post r c p cur parts = (res, c1, r1, calls) \<Longrightarrow>
   call_path ` set calls \<subseteq> set (current_paths cur parts)
   \<and> (\<forall>x \<in> set calls. \<not> dict_has c (call_path x))
   \<and> distinct (map call_path calls)"
proof (induction rule: create_levels_cases)
  case (Created r c p cur part parts fid r' res c1 r1 calls)
  then show ?case by (auto simp: dict_has_update Let_def)
qed (auto simp: Let_def)

lemma create_levels_new_keys:
  "create_levels post r c p cur parts = (res, c1, r1, calls) \<Longrightarrow>
   dict_has c1 k \<Longrightarrow> dict_has c k \<or> k \<in> call_path ` set calls"
proof (induction rule: create_levels_cases)
  case (Created r c p cur part parts fid r' res c1 r1 calls)
  then show ?case by (auto simp: dict_has_update)
qed auto

lemma create_levels_rerun:
  "\<forall>x \<in> set (current_paths cur parts). dict_has c x \<Longrightarrow>
   create_levels post r c p cur parts
   = (Inr (if parts = [] then p else dict_get c (last (current_paths cur parts))), c, r, [])"
proof (induction parts arbitrary: p cur)
  case Nil
  then show ?case by simp
next
  case (Cons part parts)
  then have hit: "dict_has c (next_path cur part)"
    and rest: "\<forall>x \<in> set (current_paths (next_path cur part) parts). dict_has c x"
    by (simp_all add: Let_def)
  show ?case
    unfolding create_levels_hit [OF hit] Cons.IH [OF rest]
    by (cases parts) (simp_all add: Let_def)
qed

lemma create_levels_retry:
  "create_levels post r c p cur parts = (res, c1, r1, calls) \<Longrightarrow> res = Inl e \<Longrightarrow>
   create_levels post' r' c1 p cur parts = (res2, c2, r2, calls2) \<Longrightarrow>
   calls2 \<noteq> [] \<and> hd calls2 = last calls"
proof (induction arbitrary: res2 c2 r2 calls2 rule: create_levels_cases)
  case (Nil r c p cur)
  then show ?case by simp
next
  case (Hit r c p cur part parts res c1 r1 calls)
  obtain w where w: "map_of c (next_path cur part) = Some w"
    using Hit(1) by (auto simp: dict_has_map_of)
  then have w1: "map_of c1 (next_path cur part) = Some w"
    using create_levels_mono [OF Hit(2)] by simp
  then have hit1: "dict_has c1 (next_path cur part)" by (simp add: dict_has_map_of)
  have "dict_get c1 (next_path cur part) = dict_get c (next_path cur part)"
    using w w1 by (simp add: dict_get_Some)
  with Hit(5) have "create_levels post' r' c1 (dict_get c (next_path cur part)) (next_path cur part) parts
      = (res2, c2, r2, calls2)"
    unfolding create_levels_hit [OF hit1] by simp
  from Hit(3) [OF Hit(4) this] show ?case .
next
  case (Fail r c p cur part parts e' r'')
  obtain resp r3 where post: "post' r' part p = (resp, r3)" by (cases "post' r' part p")
  show ?case
  proof (cases resp)
    case (Inl e2)
    with post have "post' r' part p = (Inl e2, r3)" by simp
    from create_levels_fail [where post = post', OF Fail(1) this, of parts] Fail(4)
    have "calls2 = [\<lparr>call_path = next_path cur part, call_name = part, call_parent = p\<rparr>]"
      by simp
    then show ?thesis by simp
  next
    case (Inr fid)
    with post have post': "post' r' part p = (Inr fid, r3)" by simp
    obtain res' c' r'' calls' where rec:
      "create_levels post' r3 (AList.update (next_path cur part) fid c) fid (next_path cur part) parts
       = (res', c', r'', calls')"
      using prod_cases4 by blast
    from create_levels_created [where post = post', OF Fail(1) post' rec] Fail(4)
    have "calls2 = \<lparr>call_path = next_path cur part, call_name = part, call_parent = p\<rparr> # calls'"
      by simp
    then show ?thesis by simp
  qed
next
  case (Created r c p cur part parts fid r'' res c1 r1 calls)
  have ne: "calls \<noteq> []" by (rule create_levels_failure_calls [OF Created(3) Created(5)])
  have "map_of (AList.update (next_path cur part) fid c) (next_path cur part) = Some fid"
    by (simp add: update_conv')
  then have w1: "map_of c1 (next_path cur part) = Some fid"
    using create_levels_mono [OF Created(3)] by simp
  then have hit1: "dict_has c1 (next_path cur part)" by (simp add: dict_has_map_of)
  have "dict_get c1 (next_path cur part) = fid" using w1 by (simp add: dict_get_Some)
  with Created(6) have "create_levels post' r' c1 fid (next_path cur part) parts
      = (res2, c2, r2, calls2)"
    unfolding create_levels_hit [OF hit1] by simp
  from Created(4) [OF Created(5) this] ne show ?case by simp
qed

subsection \<open>Paths\<close>

lemma proper_prefixes_iff:
  "q \<in> set (proper_prefixes p) \<longleftrightarrow> (\<exists>rest. p = q @ CHR ''/'' # rest)"
proof
  assume "q \<in> set (proper_prefixes p)"
  then obtain i where i: "i < length p" "p ! i = CHR ''/''" "q = take i p"
    by (auto simp: proper_prefixes_def)
  then have "p = q @ CHR ''/'' # drop (Suc i) p"
    using id_take_nth_drop [of i p] by simp
  then show "\<exists>rest. p = q @ CHR ''/'' # rest" by blast
next
  assume "\<exists>rest. p = q @ CHR ''/'' # rest"
  then obtain rest where p: "p = q @ CHR ''/'' # rest" by blast
  then have "length q < length p" "p ! length q = CHR ''/''" "take (length q) p = q"
    by simp_all
  then show "q \<in> set (proper_prefixes p)"
    unfolding proper_prefixes_def by force
qed

lemma proper_prefixes_no_slash: "CHR ''/'' \<notin> set part \<Longrightarrow> proper_prefixes part = []"
proof (cases "proper_prefixes part")
  case Nil
  then show ?thesis .
next
  case (Cons q qs)
  assume a: "CHR ''/'' \<notin> set part"
  from Cons have "q \<in> set (proper_prefixes part)" by simp
  then obtain rest where "part = q @ CHR ''/'' # rest" using proper_prefixes_iff by blast
  with a show ?thesis by simp
qed

lemma proper_prefixes_step:
  assumes "CHR ''/'' \<notin> set part" and "q \<in> set (proper_prefixes (cur @ ''/'' @ part))"
  shows "q = cur \<or> q \<in> set (proper_prefixes cur)"
proof -
  from assms(2) obtain rest where eq: "cur @ CHR ''/'' # part = q @ CHR ''/'' # rest"
    using proper_prefixes_iff [of q "cur @ ''/'' @ part"] by auto
  then consider us where "cur = q @ us" "us @ CHR ''/'' # part = CHR ''/'' # rest"
    | us where "cur @ us = q" "CHR ''/'' # part = us @ CHR ''/'' # rest"
    by (auto simp: append_eq_append_conv2)
  then show ?thesis
  proof cases
    case 1
    show ?thesis
    proof (cases us)
      case Nil
      with 1 show ?thesis by simp
    next
      case (Cons u us')
      with 1 have "cur = q @ CHR ''/'' # us'" by simp
      then show ?thesis using proper_prefixes_iff by blast
    qed
  next
    case 2
    show ?thesis
    proof (cases us)
      case Nil
      with 2 show ?thesis by simp
    next
      case (Cons u us')
      with 2 have "part = us' @ CHR ''/'' # rest" by simp
      with assms(1) show ?thesis by simp
    qed
  qed
qed

lemma proper_prefixes_next_path:
  assumes "CHR ''/'' \<notin> set part" and "q \<in> set (proper_prefixes (next_path cur part))"
  shows "cur \<noteq> [] \<and> (q = cur \<or> q \<in> set (proper_prefixes cur))"
proof (cases "cur = []")
  case True
  with assms show ?thesis by (simp add: next_path_def proper_prefixes_no_slash)
next
  case False
  with assms proper_prefixes_step [of part q cur] show ?thesis by (simp add: next_path_def)
qed

lemma split_slash_nonempty: "split_slash s \<noteq> []"
  by (induction s) (auto split: list.splits)

lemma split_slash_no_slash: "part \<in> set (split_slash s) \<Longrightarrow> CHR ''/'' \<notin> set part"
proof (induction s arbitrary: part)
  case Nil
  then show ?case by simp
next
  case (Cons c s)
  then show ?case
    using split_slash_nonempty [of s] by (cases "split_slash s") (auto split: if_splits)
qed

lemma join_split_slash: "join_slash (split_slash s) = s"
proof (induction s)
  case Nil
  then show ?case by simp
next
  case (Cons c s)
  obtain p ps where sp: "split_slash s = p # ps"
    using split_slash_nonempty [of s] by (cases "split_slash s") auto
  with Cons show ?case by (cases ps) auto
qed

lemma split_slash_head:
  "\<not> prefix ''/'' s \<Longrightarrow> hd (split_slash s) \<noteq> [] \<or> split_slash s = [[]]"
  by (cases s) (auto split: list.splits)

lemma current_paths_nonempty: "current_paths cur parts = [] \<longleftrightarrow> parts = []"
  by (cases parts) (simp_all add: Let_def)

lemma last_current_paths:
  "cur \<noteq> [] \<Longrightarrow> parts \<noteq> [] \<Longrightarrow>
   last (current_paths cur parts) = cur @ ''/'' @ join_slash parts"
proof (induction parts arbitrary: cur)
  case Nil
  then show ?case by simp
next
  case (Cons part parts)
  show ?case
  proof (cases parts)
    case Nil
    with Cons.prems show ?thesis by (simp add: Let_def next_path_def)
  next
    case (Cons a list)
    have "next_path cur part \<noteq> []" using Cons.prems by (simp add: next_path_def)
    from Cons.IH [OF this] Cons Cons.prems show ?thesis
      by (simp add: Let_def next_path_def current_paths_nonempty)
  qed
qed

lemma last_current_paths_root:
  assumes "hd parts \<noteq> [] \<or> parts = [[]]" and "parts \<noteq> []"
  shows "last (current_paths [] parts) = join_slash parts"
proof (cases parts)
  case Nil
  with assms show ?thesis by simp
next
  case (Cons part rest)
  show ?thesis
  proof (cases rest)
    case Nil
    with Cons show ?thesis by (simp add: Let_def next_path_def)
  next
    case (Cons a list)
    with assms \<open>parts = part # rest\<close> have ne: "part \<noteq> []" by auto
    from last_current_paths [OF ne, of rest] Cons \<open>parts = part # rest\<close> ne
    show ?thesis by (simp add: Let_def next_path_def current_paths_nonempty)
  qed
qed

lemma current_paths_shorter:
  "x \<in> set (butlast (current_paths cur parts)) \<Longrightarrow>
   length x < length (next_path cur (join_slash parts))"
proof (induction parts arbitrary: cur)
  case Nil
  then show ?case by simp
next
  case (Cons part parts)
  show ?case
  proof (cases parts)
    case Nil
    with Cons.prems show ?thesis by (simp add: Let_def)
  next
    case (Cons a list)
    then have ne: "current_paths (next_path cur part) parts \<noteq> []"
      unfolding current_paths_nonempty by simp
    have le: "length (next_path (next_path cur part) (join_slash parts))
              \<le> length (next_path cur (join_slash (part # parts)))"
      using Cons by (simp add: next_path_def)
    have lt: "length (next_path cur part) < length (next_path cur (join_slash (part # parts)))"
      using Cons by (simp add: next_path_def)
    from Cons.prems ne have "x = next_path cur part
        \<or> x \<in> set (butlast (current_paths (next_path cur part) parts))"
      by (simp add: Let_def)
    then show ?thesis
    proof
      assume "x = next_path cur part"
      with lt show ?thesis by simp
    next
      assume "x \<in> set (butlast (current_paths (next_path cur part) parts))"
      from Cons.IH [OF this] le show ?thesis by simp
    qed
  qed
qed

lemma path_is_last_current_path:
  assumes "p \<in> set (current_paths [] (split_slash p))"
  shows "p = last (current_paths [] (split_slash p))"
proof -
  let ?cps = "current_paths [] (split_slash p)"
  have "?cps \<noteq> []" using assms by auto
  then have "?cps = butlast ?cps @ [last ?cps]" by simp
  then have "p \<in> set (butlast ?cps) \<or> p = last ?cps"
    using assms by (metis Un_iff empty_iff empty_set set_ConsD set_append)
  moreover have "p \<notin> set (butlast ?cps)"
  proof
    assume "p \<in> set (butlast ?cps)"
    from current_paths_shorter [OF this] show False
      by (simp add: join_split_slash next_path_def)
  qed
  ultimately show ?thesis by blast
qed

subsection \<open>Prefix closure\<close>

lemma prefix_closedD:
  "prefix_closed c \<Longrightarrow> dict_has c k \<Longrightarrow> q \<in> set (proper_prefixes k) \<Longrightarrow> dict_has c q"
  by (auto simp: prefix_closed_def dict_has_def)

lemma prefix_closed_update:
  assumes "prefix_closed c" and "\<forall>q \<in> set (proper_prefixes k). dict_has c q"
  shows "prefix_closed (AList.update k v c)"
  unfolding prefix_closed_def
proof (intro ballI)
  fix k' q
  assume k': "k' \<in> set (map fst (AList.update k v c))" and q: "q \<in> set (proper_prefixes k')"
  from k' have "k' = k \<or> dict_has c k'"
    using dict_has_update [of k v c k'] by (simp add: dict_has_def)
  then have "dict_has c q"
    using assms q prefix_closedD by blast
  then show "dict_has (AList.update k v c) q" by (simp add: dict_has_update)
qed

lemma create_levels_prefix_closed:
  "create_levels post r c p cur parts = (res, c1, r1, calls) \<Longrightarrow>
   prefix_closed c \<Longrightarrow> (cur \<noteq> [] \<longrightarrow> dict_has c cur) \<Longrightarrow>
   (\<forall>part \<in> set parts. CHR ''/'' \<notin> set part) \<Longrightarrow> prefix_closed c1"
proof (induction rule: create_levels_cases)
  case (Nil r c p cur)
  then show ?case by simp
next
  case (Hit r c p cur part parts res c1 r1 calls)
  show ?case
    by (rule Hit(3)) (use Hit in simp_all)
next
  case (Fail r c p cur part parts e r')
  then show ?case by simp
next
  case (Created r c p cur part parts fid r' res c1 r1 calls)
  have slash: "CHR ''/'' \<notin> set part" using Created(7) by simp
  have "\<forall>q \<in> set (proper_prefixes (next_path cur part)). dict_has c q"
  proof
    fix q assume "q \<in> set (proper_prefixes (next_path cur part))"
    from proper_prefixes_next_path [OF slash this]
    have "cur \<noteq> []" and "q = cur \<or> q \<in> set (proper_prefixes cur)" by simp_all
    then show "dict_has c q"
      using Created(5,6) prefix_closedD [of c cur q] by auto
  qed
  then have pc: "prefix_closed (AList.update (next_path cur part) fid c)"
    using Created(5) by (rule prefix_closed_update [rotated])
  show ?case
    by (rule Created(4) [OF pc]) (use Created(7) in \<open>simp_all add: dict_has_update\<close>)
qed

lemma create_folder_prefix_closed:
  assumes "prefix_closed cache"
  shows "prefix_closed (fst (snd (create_folder post r cache folder_path)))"
proof (cases "dict_has cache folder_path")
  case True
  with assms show ?thesis by (simp add: create_folder_def)
next
  case False
  obtain res c1 r1 calls where run:
    "create_levels post r cache JNull [] (split_slash folder_path) = (res, c1, r1, calls)"
    using prod_cases4 by blast
  have "prefix_closed c1"
    by (rule create_levels_prefix_closed [OF run assms]) (simp_all add: split_slash_no_slash)
  with False run show ?thesis
    by (cases res) (simp_all add: create_folder_def)
qed

lemma create_folder_path_cached:
  assumes "create_folder post r cache folder_path = (Inr leaf, cache1, r1, calls)"
    and "\<not> prefix ''/'' folder_path"
  shows "dict_has cache1 folder_path"
proof (cases "dict_has cache folder_path")
  case True
  with assms show ?thesis by (simp add: create_folder_def)
next
  case False
  obtain res c' r' calls' where run:
    "create_levels post r cache JNull [] (split_slash folder_path) = (res, c', r', calls')"
    using prod_cases4 by blast
  with assms(1) False have res: "res = Inr leaf" and c': "c' = cache1"
    by (cases res; simp add: create_folder_def)+
  have "last (current_paths [] (split_slash folder_path)) = folder_path"
    using last_current_paths_root [OF split_slash_head [OF assms(2)] split_slash_nonempty]
    by (simp add: join_split_slash)
  moreover have "current_paths [] (split_slash folder_path) \<noteq> []"
    by (simp add: current_paths_nonempty split_slash_nonempty)
  ultimately have "folder_path \<in> set (current_paths [] (split_slash folder_path))"
    by (metis last_in_set)
  with create_levels_success_paths [OF run res] c' show ?thesis by simp
qed

lemma delete_folder_prefix_closed:
  assumes "prefix_closed cache"
    and "\<forall>(k, v) \<in> set cache. \<forall>(k', v') \<in> set cache.
           v = folder_id \<and> v' \<noteq> folder_id \<longrightarrow> k \<notin> set (proper_prefixes k')"
  shows "prefix_closed (fst (snd (delete_folder del r cache folder_id)))"
proof -
  obtain resp r' where d: "del r folder_id = (resp, r')" by (cases "del r folder_id")
  show ?thesis
  proof (cases resp)
    case (Inl e)
    with d assms(1) show ?thesis by (simp add: delete_folder_def)
  next
    case (Inr u)
    let ?c = "filter (\<lambda>(k, v). v \<noteq> folder_id) cache"
    have "prefix_closed ?c"
      unfolding prefix_closed_def
    proof (intro ballI)
      fix k' q
      assume "k' \<in> set (map fst ?c)" and q: "q \<in> set (proper_prefixes k')"
      then obtain v' where kv': "(k', v') \<in> set cache" "v' \<noteq> folder_id" by auto
      then have "dict_has cache k'" by (force simp: dict_has_def)
      from prefix_closedD [OF assms(1) this q] obtain v where qv: "(q, v) \<in> set cache"
        by (auto simp: dict_has_def)
      have "v \<noteq> folder_id"
      proof
        assume "v = folder_id"
        with assms(2) qv kv' q show False by fastforce
      qed
      with qv show "dict_has ?c q" by (force simp: dict_has_def)
    qed
    with d Inr show ?thesis by (simp add: delete_folder_def)
  qed
qed

lemma set_butlast_Cons: "set (butlast xs) \<subseteq> set (butlast (x # xs))"
  by (cases xs) auto

lemma create_levels_failure_butlast:
  "create_levels post r c p cur parts = (res, c1, r1, calls) \<Longrightarrow> res = Inl e \<Longrightarrow>
   call_path ` set (butlast calls) \<subseteq> set (butlast (current_paths cur parts))"
proof (induction rule: create_levels_cases)
  case (Nil r c p cur)
  then show ?case by simp
next
  case (Hit r c p cur part parts res c1 r1 calls)
  from Hit(3) [OF Hit(4)] set_butlast_Cons [of "current_paths (next_path cur part) parts" "next_path cur part"]
  show ?case by (auto simp: Let_def)
next
  case (Fail r c p cur part parts e r')
  then show ?case by simp
next
  case (Created r c p cur part parts fid r' res c1 r1 calls)
  have ne: "calls \<noteq> []" by (rule create_levels_failure_calls [OF Created(3) Created(5)])
  have "parts \<noteq> []"
  proof
    assume "parts = []"
    with Created(3,5) show False by simp
  qed
  then have cps: "current_paths (next_path cur part) parts \<noteq> []"
    unfolding current_paths_nonempty .
  from Created(4) [OF Created(5)] ne cps show ?case by (auto simp: Let_def)
qed

lemma create_folder_failure_run:
  assumes "create_folder post r cache folder_path = (Inl err, cache1, r1, calls1)"
  shows "\<not> dict_has cache folder_path
       \<and> (\<exists>e. err = FolderCreateFailed folder_path e
              \<and> create_levels post r cache JNull [] (split_slash folder_path) = (Inl e, cache1, r1, calls1))"
proof (cases "dict_has cache folder_path")
  case True
  with assms show ?thesis by (simp add: create_folder_def)
next
  case False
  obtain res c' r' calls' where run:
    "create_levels post r cache JNull [] (split_slash folder_path) = (res, c', r', calls')"
    using prod_cases4 by blast
  with assms False show ?thesis
    by (cases res) (simp_all add: create_folder_def)
qed

lemma create_folder_success_run:
  assumes "create_folder post r cache folder_path = (Inr leaf, cache1, r1, calls1)"
    and "\<not> dict_has cache folder_path"
  shows "create_levels post r cache JNull [] (split_slash folder_path) = (Inr leaf, cache1, r1, calls1)"
proof -
  obtain res c' r' calls' where run:
    "create_levels post r cache JNull [] (split_slash folder_path) = (res, c', r', calls')"
    using prod_cases4 by blast
  with assms show ?thesis
    by (cases res) (simp_all add: create_folder_def)
qed

lemma create_folder_calls:
  "snd (snd (snd (create_folder post r cache folder_path)))
   = (if dict_has cache folder_path then []
      else snd (snd (snd (create_levels post r cache JNull [] (split_slash folder_path)))))"
proof (cases "dict_has cache folder_path")
  case True
  then show ?thesis by (simp add: create_folder_def)
next
  case False
  obtain res c' r' calls' where run:
    "create_levels post r cache JNull [] (split_slash folder_path) = (res, c', r', calls')"
    using prod_cases4 by blast
  with False show ?thesis
    by (cases res) (simp_all add: create_folder_def)
qed

text \<open>
  C4.  When \<^verbatim>\<open>create_folder\<close> has succeeded on a path, a second call on the same path,
  whatever the remote would answer, issues no creation call, leaves the cache as it is
  and returns the same leaf identifier.  The creation calls of the first call are for
  distinct paths, each a prefix of the path visited by the loop that was missing from the
  cache: at most one call for each missing segment.
\<close>

theorem create_folder_idempotent:
  assumes "create_folder post r cache folder_path = (Inr leaf, cache1, r1, calls1)"
  shows "create_folder post' r' cache1 folder_path = (Inr leaf, cache1, r', [])
       \<and> distinct (map call_path calls1)
       \<and> (\<forall>c \<in> set calls1. call_path c \<in> set (current_paths [] (split_slash folder_path))
                              \<and> \<not> dict_has cache (call_path c))"
proof (cases "dict_has cache folder_path")
  case True
  with assms show ?thesis by (auto simp: create_folder_def)
next
  case False
  let ?cps = "current_paths [] (split_slash folder_path)"
  note run = create_folder_success_run [OF assms False]
  note calls = create_levels_calls [OF run]
  from create_levels_success_paths [OF run refl] split_slash_nonempty [of folder_path]
  have all: "\<forall>x \<in> set ?cps. dict_has cache1 x" and leaf: "dict_get cache1 (last ?cps) = leaf"
    by simp_all
  have second: "create_folder post' r' cache1 folder_path = (Inr leaf, cache1, r', [])"
  proof (cases "dict_has cache1 folder_path")
    case True
    with create_levels_new_keys [OF run True] False
    have "folder_path \<in> call_path ` set calls1" by simp
    with calls have "folder_path \<in> set ?cps" by blast
    then have "folder_path = last ?cps" by (rule path_is_last_current_path)
    with leaf True show ?thesis by (simp add: create_folder_def)
  next
    case False
    with create_levels_rerun [OF all, of post' r' JNull] leaf split_slash_nonempty [of folder_path]
    show ?thesis by (simp add: create_folder_def)
  qed
  from second calls show ?thesis by blast
qed

text \<open>
  C8.  When \<^verbatim>\<open>create_folder\<close> fails, the error carries the path of the call; the cache
  has lost nothing; every creation call but the last, failed one has its path in the
  cache; and a retry on the same path, whatever the remote answers then, issues creation
  calls only for paths absent from the cache, the first of them being the very call that
  failed (same path, name and parent identifier).
\<close>

theorem create_folder_failure_keeps_ancestors:
  assumes "create_folder post r cache folder_path = (Inl err, cache1, r1, calls1)"
  shows "(\<exists>e. err = FolderCreateFailed folder_path e)
       \<and> (\<forall>k v. map_of cache k = Some v \<longrightarrow> map_of cache1 k = Some v)
       \<and> calls1 \<noteq> []
       \<and> (\<forall>c \<in> set (butlast calls1). dict_has cache1 (call_path c))
       \<and> (\<forall>c \<in> set (snd (snd (snd (create_folder post' r' cache1 folder_path)))).
             \<not> dict_has cache1 (call_path c))
       \<and> snd (snd (snd (create_folder post' r' cache1 folder_path))) \<noteq> []
       \<and> hd (snd (snd (snd (create_folder post' r' cache1 folder_path)))) = last calls1"
proof -
  let ?cps = "current_paths [] (split_slash folder_path)"
  from create_folder_failure_run [OF assms] obtain e where
    notin: "\<not> dict_has cache folder_path" and err: "err = FolderCreateFailed folder_path e"
    and run: "create_levels post r cache JNull [] (split_slash folder_path) = (Inl e, cache1, r1, calls1)"
    by blast
  have mono: "\<forall>k v. map_of cache k = Some v \<longrightarrow> map_of cache1 k = Some v"
    using create_levels_mono [OF run] by blast
  have ne: "calls1 \<noteq> []" by (rule create_levels_failure_calls [OF run refl])
  note fc = create_levels_failure_cache [OF run refl]
  have notin1: "\<not> dict_has cache1 folder_path"
  proof
    assume in1: "dict_has cache1 folder_path"
    with create_levels_new_keys [OF run in1] notin
    obtain x where x: "x \<in> set calls1" "call_path x = folder_path" by auto
    have "x \<noteq> last calls1" using fc in1 x by auto
    with x ne have "x \<in> set (butlast calls1)"
      by (metis append_butlast_last_id Un_iff empty_iff empty_set set_ConsD set_append)
    with create_levels_failure_butlast [OF run refl] x
    have "folder_path \<in> set (butlast ?cps)" by auto
    from current_paths_shorter [OF this] show False
      by (simp add: join_split_slash next_path_def)
  qed
  obtain res2 c2 r2 calls2 where run2:
    "create_levels post' r' cache1 JNull [] (split_slash folder_path) = (res2, c2, r2, calls2)"
    using prod_cases4 by blast
  have calls2: "snd (snd (snd (create_folder post' r' cache1 folder_path))) = calls2"
    using notin1 run2 by (simp add: create_folder_calls)
  from create_levels_calls [OF run2] have "\<forall>c \<in> set calls2. \<not> dict_has cache1 (call_path c)"
    by blast
  moreover from create_levels_retry [OF run refl run2]
  have "calls2 \<noteq> []" "hd calls2 = last calls1" by simp_all
  ultimately show ?thesis
    unfolding calls2 using err mono ne fc by blast
qed

theorem create_folder_idempotent_witness:
  "create_folder name_ids 0 [(''X'', JStr ''fx'')] ''X/Y/Z''
   = (Inr (JStr ''id-Z''),
      [(''X'', JStr ''fx''), (''X/Y'', JStr ''id-Y''), (''X/Y/Z'', JStr ''id-Z'')], 2,
      [\<lparr>call_path = ''X/Y'', call_name = ''Y'', call_parent = JStr ''fx''\<rparr>,
       \<lparr>call_path = ''X/Y/Z'', call_name = ''Z'', call_parent = JStr ''id-Y''\<rparr>])
   \<and> create_folder (fail_on ''Z'') 2
        [(''X'', JStr ''fx''), (''X/Y'', JStr ''id-Y''), (''X/Y/Z'', JStr ''id-Z'')] ''X/Y/Z''
      = (Inr (JStr ''id-Z''),
         [(''X'', JStr ''fx''), (''X/Y'', JStr ''id-Y''), (''X/Y/Z'', JStr ''id-Z'')], 2, [])"
proof -
  have run: "create_folder name_ids 0 [(''X'', JStr ''fx'')] ''X/Y/Z''
   = (Inr (JStr ''id-Z''),
      [(''X'', JStr ''fx''), (''X/Y'', JStr ''id-Y''), (''X/Y/Z'', JStr ''id-Z'')], 2,
      [\<lparr>call_path = ''X/Y'', call_name = ''Y'', call_parent = JStr ''fx''\<rparr>,
       \<lparr>call_path = ''X/Y/Z'', call_name = ''Z'', call_parent = JStr ''id-Y''\<rparr>])"
    by code_simp
  from create_folder_idempotent [OF run, of "fail_on ''Z''" 2] run show ?thesis by blast
qed

theorem create_folder_failure_keeps_ancestors_witness:
  "create_folder (fail_on ''bad'') 0 [(''X'', JStr ''fx'')] ''X/Y/bad/Z''
   = (Inl (FolderCreateFailed ''X/Y/bad/Z'' ''HTTP 500''),
      [(''X'', JStr ''fx''), (''X/Y'', JStr ''id-Y'')], 2,
      [\<lparr>call_path = ''X/Y'', call_name = ''Y'', call_parent = JStr ''fx''\<rparr>,
       \<lparr>call_path = ''X/Y/bad'', call_name = ''bad'', call_parent = JStr ''id-Y''\<rparr>])
   \<and> hd (snd (snd (snd (create_folder name_ids 2
            [(''X'', JStr ''fx''), (''X/Y'', JStr ''id-Y'')] ''X/Y/bad/Z''))))
      = \<lparr>call_path = ''X/Y/bad'', call_name = ''bad'', call_parent = JStr ''id-Y''\<rparr>
   \<and> dict_has [(''X'', JStr ''fx''), (''X/Y'', JStr ''id-Y'')] ''X/Y''"
proof -
  have run: "create_folder (fail_on ''bad'') 0 [(''X'', JStr ''fx'')] ''X/Y/bad/Z''
   = (Inl (FolderCreateFailed ''X/Y/bad/Z'' ''HTTP 500''),
      [(''X'', JStr ''fx''), (''X/Y'', JStr ''id-Y'')], 2,
      [\<lparr>call_path = ''X/Y'', call_name = ''Y'', call_parent = JStr ''fx''\<rparr>,
       \<lparr>call_path = ''X/Y/bad'', call_name = ''bad'', call_parent = JStr ''id-Y''\<rparr>])"
    by code_simp
  from create_folder_failure_keeps_ancestors [OF run, of name_ids 2] run show ?thesis by simp
qed

lemma delete_folder_result:
  "delete_folder del r cache folder_id =
     (case del r folder_id of
        (Inl e, r') \<Rightarrow> (Inl (FolderDeleteFailed e), cache, r')
      | (Inr u, r') \<Rightarrow> (Inr True, filter (\<lambda>(k, v). v \<noteq> folder_id) cache, r'))"
  by (simp add: delete_folder_def)

lemma filter_prefix_closed_if:
  assumes "prefix_closed cache"
    and "\<forall>(k, v) \<in> set cache. \<forall>(k', v') \<in> set cache.
           v = folder_id \<and> v' \<noteq> folder_id \<longrightarrow> k \<notin> set (proper_prefixes k')"
  shows "prefix_closed (filter (\<lambda>(k, v). v \<noteq> folder_id) cache)"
  unfolding prefix_closed_def
proof (intro ballI)
  let ?c = "filter (\<lambda>(k, v). v \<noteq> folder_id) cache"
  fix k' q
  assume "k' \<in> set (map fst ?c)" and q: "q \<in> set (proper_prefixes k')"
  then obtain v' where kv': "(k', v') \<in> set cache" "v' \<noteq> folder_id" by auto
  then have "dict_has cache k'" by (force simp: dict_has_def)
  from prefix_closedD [OF assms(1) this q] obtain v where qv: "(q, v) \<in> set cache"
    by (auto simp: dict_has_def)
  have "v \<noteq> folder_id"
  proof
    assume "v = folder_id"
    with assms(2) qv kv' q show False by fastforce
  qed
  with qv show "dict_has ?c q" by (force simp: dict_has_def)
qed

lemma filter_prefix_closed_only_if:
  assumes "distinct (map fst cache)"
    and "prefix_closed (filter (\<lambda>(k, v). v \<noteq> folder_id) cache)"
  shows "\<forall>(k, v) \<in> set cache. \<forall>(k', v') \<in> set cache.
           v = folder_id \<and> v' \<noteq> folder_id \<longrightarrow> k \<notin> set (proper_prefixes k')"
proof (intro ballI, clarify)
  let ?c = "filter (\<lambda>(k, v). v \<noteq> folder_id) cache"
  fix k k' v'
  assume kv: "(k, folder_id) \<in> set cache" and kv': "(k', v') \<in> set cache"
    and ne: "v' \<noteq> folder_id" and pre: "k \<in> set (proper_prefixes k')"
  from kv' ne have "dict_has ?c k'" by (force simp: dict_has_def)
  from prefix_closedD [OF assms(2) this pre] obtain w where w: "(k, w) \<in> set cache" "w \<noteq> folder_id"
    by (auto simp: dict_has_def)
  from assms(1) kv w(1) have "w = folder_id"
    by (meson eq_key_imp_eq_value)
  with w(2) show False by simp
qed

text \<open>
  C3, as the code has it.  From a prefix-closed cache, \<^verbatim>\<open>create_folder\<close> leaves a
  prefix-closed cache, whether it succeeds or fails; when it succeeds on a path that does
  not begin with a slash, the path and every proper prefix of it are keys of the cache.
  \<^verbatim>\<open>delete_folder\<close> leaves the cache as it is when the remote call fails; when the call
  succeeds, it keeps exactly the entries whose value differs from the deleted identifier.
  The cache that results is prefix-closed if no entry that stays has the key of a removed
  entry as a proper prefix, and, the keys being distinct, only if so.
\<close>

theorem folder_cache_prefix_closure:
  assumes "prefix_closed cache"
  shows "prefix_closed (fst (snd (create_folder post r cache folder_path)))
       \<and> (fst (create_folder post r cache folder_path) = Inr leaf \<and> \<not> prefix ''/'' folder_path
            \<longrightarrow> dict_has (fst (snd (create_folder post r cache folder_path))) folder_path
              \<and> (\<forall>q \<in> set (proper_prefixes folder_path).
                    dict_has (fst (snd (create_folder post r cache folder_path))) q))
       \<and> (\<forall>e r''. del r' folder_id = (Inl e, r'') \<longrightarrow>
            delete_folder del r' cache folder_id = (Inl (FolderDeleteFailed e), cache, r''))
       \<and> (\<forall>u r''. del r' folder_id = (Inr u, r'') \<longrightarrow>
            delete_folder del r' cache folder_id
              = (Inr True, filter (\<lambda>(k, v). v \<noteq> folder_id) cache, r'')
            \<and> ((\<forall>(k, v) \<in> set cache. \<forall>(k', v') \<in> set cache.
                    v = folder_id \<and> v' \<noteq> folder_id \<longrightarrow> k \<notin> set (proper_prefixes k'))
                 \<longrightarrow> prefix_closed (fst (snd (delete_folder del r' cache folder_id))))
            \<and> (distinct (map fst cache)
                 \<and> prefix_closed (fst (snd (delete_folder del r' cache folder_id)))
                 \<longrightarrow> (\<forall>(k, v) \<in> set cache. \<forall>(k', v') \<in> set cache.
                        v = folder_id \<and> v' \<noteq> folder_id \<longrightarrow> k \<notin> set (proper_prefixes k'))))"
proof -
  let ?out = "create_folder post r cache folder_path"
  let ?cond = "\<forall>(k, v) \<in> set cache. \<forall>(k', v') \<in> set cache.
                 v = folder_id \<and> v' \<noteq> folder_id \<longrightarrow> k \<notin> set (proper_prefixes k')"
  let ?kept = "filter (\<lambda>(k, v). v \<noteq> folder_id) cache"
  have pc: "prefix_closed (fst (snd ?out))"
    by (rule create_folder_prefix_closed [OF assms])
  have cr: "fst ?out = Inr leaf \<and> \<not> prefix ''/'' folder_path
        \<longrightarrow> dict_has (fst (snd ?out)) folder_path
          \<and> (\<forall>q \<in> set (proper_prefixes folder_path). dict_has (fst (snd ?out)) q)"
  proof (intro impI, elim conjE)
    assume ok: "fst ?out = Inr leaf" and ns: "\<not> prefix ''/'' folder_path"
    obtain c1 r1 calls where "?out = (Inr leaf, c1, r1, calls)"
      using ok by (cases ?out) auto
    then have "dict_has (fst (snd ?out)) folder_path"
      using create_folder_path_cached [OF _ ns] by fastforce
    with pc show "dict_has (fst (snd ?out)) folder_path
          \<and> (\<forall>q \<in> set (proper_prefixes folder_path). dict_has (fst (snd ?out)) q)"
      using prefix_closedD by blast
  qed
  have fail: "\<forall>e r''. del r' folder_id = (Inl e, r'') \<longrightarrow>
            delete_folder del r' cache folder_id = (Inl (FolderDeleteFailed e), cache, r'')"
    by (simp add: delete_folder_result)
  have ok: "delete_folder del r' cache folder_id = (Inr True, ?kept, r'')
            \<and> (?cond \<longrightarrow> prefix_closed (fst (snd (delete_folder del r' cache folder_id))))
            \<and> (distinct (map fst cache)
                 \<and> prefix_closed (fst (snd (delete_folder del r' cache folder_id))) \<longrightarrow> ?cond)"
    if d: "del r' folder_id = (Inr u, r'')" for u r''
  proof -
    have eq: "delete_folder del r' cache folder_id = (Inr True, ?kept, r'')"
      using d by (simp add: delete_folder_result)
    have "?cond \<longrightarrow> prefix_closed ?kept"
      using filter_prefix_closed_if [OF assms] by (rule impI)
    moreover have "distinct (map fst cache) \<and> prefix_closed ?kept \<longrightarrow> ?cond"
      using filter_prefix_closed_only_if [of cache folder_id] by (intro impI, elim conjE)
    ultimately show ?thesis unfolding eq by simp
  qed
  have ok': "\<forall>u r''. del r' folder_id = (Inr u, r'') \<longrightarrow>
            delete_folder del r' cache folder_id = (Inr True, ?kept, r'')
            \<and> (?cond \<longrightarrow> prefix_closed (fst (snd (delete_folder del r' cache folder_id))))
            \<and> (distinct (map fst cache)
                 \<and> prefix_closed (fst (snd (delete_folder del r' cache folder_id))) \<longrightarrow> ?cond)"
    by (intro allI impI) (rule ok)
  from pc cr fail ok' show ?thesis by (intro conjI)
qed

theorem folder_cache_prefix_closure_witness:
  "prefix_closed [(''X'', JStr ''fx''), (''X/Y'', JStr ''fy'')]
   \<and> fst (create_folder name_ids 0 [(''X'', JStr ''fx''), (''X/Y'', JStr ''fy'')] ''X/Y/Z'')
       = Inr (JStr ''id-Z'')
   \<and> \<not> prefix ''/'' ''X/Y/Z''
   \<and> accept_delete 0 (JStr ''fy'') = (Inr (), 1)
   \<and> distinct (map fst [(''X'', JStr ''fx''), (''X/Y'', JStr ''fy'')])
   \<and> prefix_closed (fst (snd (create_folder name_ids 0
        [(''X'', JStr ''fx''), (''X/Y'', JStr ''fy'')] ''X/Y/Z'')))
   \<and> dict_has (fst (snd (create_folder name_ids 0
        [(''X'', JStr ''fx''), (''X/Y'', JStr ''fy'')] ''X/Y/Z''))) ''X/Y/Z''
   \<and> delete_folder accept_delete 0 [(''X'', JStr ''fx''), (''X/Y'', JStr ''fy'')] (JStr ''fy'')
       = (Inr True, [(''X'', JStr ''fx'')], 1)
   \<and> prefix_closed (fst (snd (delete_folder accept_delete 0
        [(''X'', JStr ''fx''), (''X/Y'', JStr ''fy'')] (JStr ''fy''))))"
proof -
  let ?c = "[(''X'', JStr ''fx''), (''X/Y'', JStr ''fy'')]"
  have h1: "prefix_closed ?c" by code_simp
  have h2: "fst (create_folder name_ids 0 ?c ''X/Y/Z'') = Inr (JStr ''id-Z'')" by code_simp
  have h3: "\<not> prefix ''/'' ''X/Y/Z''" by simp
  have h4: "\<forall>(k, v) \<in> set ?c. \<forall>(k', v') \<in> set ?c.
          v = JStr ''fy'' \<and> v' \<noteq> JStr ''fy'' \<longrightarrow> k \<notin> set (proper_prefixes k')"
    by code_simp
  have h5: "accept_delete 0 (JStr ''fy'') = (Inr (), 1)" by (simp add: accept_delete_def)
  have h6: "distinct (map fst ?c)" by simp
  have kept: "filter (\<lambda>(k, v). v \<noteq> JStr ''fy'') ?c = [(''X'', JStr ''fx'')]" by simp
  note t = folder_cache_prefix_closure [OF h1, of name_ids 0 "''X/Y/Z''" "JStr ''id-Z''"
      accept_delete 0 "JStr ''fy''"]
  from t have c1: "prefix_closed (fst (snd (create_folder name_ids 0 ?c ''X/Y/Z'')))"
    by (rule conjunct1)
  from t h2 h3 have c2: "dict_has (fst (snd (create_folder name_ids 0 ?c ''X/Y/Z''))) ''X/Y/Z''"
    by blast
  from t have "\<forall>u r''. accept_delete 0 (JStr ''fy'') = (Inr u, r'') \<longrightarrow>
      delete_folder accept_delete 0 ?c (JStr ''fy'')
        = (Inr True, filter (\<lambda>(k, v). v \<noteq> JStr ''fy'') ?c, r'')
      \<and> ((\<forall>(k, v) \<in> set ?c. \<forall>(k', v') \<in> set ?c.
              v = JStr ''fy'' \<and> v' \<noteq> JStr ''fy'' \<longrightarrow> k \<notin> set (proper_prefixes k'))
           \<longrightarrow> prefix_closed (fst (snd (delete_folder accept_delete 0 ?c (JStr ''fy'')))))
      \<and> (distinct (map fst ?c)
           \<and> prefix_closed (fst (snd (delete_folder accept_delete 0 ?c (JStr ''fy''))))
           \<longrightarrow> (\<forall>(k, v) \<in> set ?c. \<forall>(k', v') \<in> set ?c.
                  v = JStr ''fy'' \<and> v' \<noteq> JStr ''fy'' \<longrightarrow> k \<notin> set (proper_prefixes k')))"
    by (rule conjunct2 [THEN conjunct2, THEN conjunct2])
  from this [rule_format, OF h5]
  have c3: "delete_folder accept_delete 0 ?c (JStr ''fy'')
        = (Inr True, filter (\<lambda>(k, v). v \<noteq> JStr ''fy'') ?c, 1)"
    and c4: "(\<forall>(k, v) \<in> set ?c. \<forall>(k', v') \<in> set ?c.
              v = JStr ''fy'' \<and> v' \<noteq> JStr ''fy'' \<longrightarrow> k \<notin> set (proper_prefixes k'))
           \<longrightarrow> prefix_closed (fst (snd (delete_folder accept_delete 0 ?c (JStr ''fy''))))"
    by (rule conjunct1, rule conjunct2 [THEN conjunct1])
  from c4 h4 have c5: "prefix_closed (fst (snd (delete_folder accept_delete 0 ?c (JStr ''fy''))))"
    by (rule mp)
  from c3 have c3': "delete_folder accept_delete 0 ?c (JStr ''fy'') = (Inr True, [(''X'', JStr ''fx'')], 1)"
    unfolding kept .
  from h1 h2 h3 h5 h6 c1 c2 c3' c5 show ?thesis by (intro conjI)
qed

text \<open>
  C3 as stated fails.  From the prefix-closed cache with \<open>X\<close> and \<open>X/Y\<close>, deleting the
  folder of \<open>X\<close> leaves \<open>X/Y\<close> without its prefix.  And \<^verbatim>\<open>create_folder\<close> succeeds on
  \<open>/a/b\<close>, a path that begins with a slash, with the keys \<open>\<close> (empty), \<open>a\<close> and \<open>a/b\<close>:
  the proper prefix \<open>/a\<close> is not a key, nor is the path itself.
\<close>

theorem delete_folder_breaks_prefix_closure:
  "prefix_closed [(''X'', JStr ''fx''), (''X/Y'', JStr ''fy'')]
   \<and> fst (snd (delete_folder accept_delete 0
        [(''X'', JStr ''fx''), (''X/Y'', JStr ''fy'')] (JStr ''fx''))) = [(''X/Y'', JStr ''fy'')]
   \<and> \<not> prefix_closed (fst (snd (delete_folder accept_delete 0
        [(''X'', JStr ''fx''), (''X/Y'', JStr ''fy'')] (JStr ''fx''))))
   \<and> prefix_closed []
   \<and> create_folder name_ids 0 [] ''/a/b''
      = (Inr (JStr ''id-b''),
         [([], JStr ''id-''), (''a'', JStr ''id-a''), (''a/b'', JStr ''id-b'')], 3,
         [\<lparr>call_path = [], call_name = [], call_parent = JNull\<rparr>,
          \<lparr>call_path = ''a'', call_name = ''a'', call_parent = JStr ''id-''\<rparr>,
          \<lparr>call_path = ''a/b'', call_name = ''b'', call_parent = JStr ''id-a''\<rparr>])
   \<and> ''/a'' \<in> set (proper_prefixes ''/a/b'')
   \<and> \<not> dict_has [([], JStr ''id-''), (''a'', JStr ''id-a''), (''a/b'', JStr ''id-b'')] ''/a''
   \<and> \<not> dict_has [([], JStr ''id-''), (''a'', JStr ''id-a''), (''a/b'', JStr ''id-b'')] ''/a/b''"
  by code_simp

subsection \<open>\<^verbatim>\<open>delete_file\<close>\<close>

lemma delete_matching_sent:
  "delete_matching del r part_name folder_id parts = (res, r2, sent) \<Longrightarrow>
   prefix sent (filter (\<lambda>part. dict_get part ''name'' = JStr part_name
                              \<and> dict_get part ''folderId'' = folder_id) parts)
   \<and> (\<forall>n. res = Inr n \<longrightarrow>
         sent = filter (\<lambda>part. dict_get part ''name'' = JStr part_name
                               \<and> dict_get part ''folderId'' = folder_id) parts
         \<and> n = length sent)"
proof (induction parts arbitrary: r res r2 sent)
  case Nil
  then show ?case by auto
next
  case (Cons part parts)
  let ?m = "\<lambda>part. dict_get part ''name'' = JStr part_name \<and> dict_get part ''folderId'' = folder_id"
  show ?case
  proof (cases "?m part")
    case False
    with Cons.prems have "delete_matching del r part_name folder_id parts = (res, r2, sent)"
      by auto
    from Cons.IH [OF this] False show ?thesis by auto
  next
    case True
    obtain resp r' where d: "del r (dict_get part ''id'') = (resp, r')"
      by (cases "del r (dict_get part ''id'')")
    show ?thesis
    proof (cases resp)
      case (Inl e)
      with Cons.prems True d have "res = Inl e" "sent = [part]" by simp_all
      with True show ?thesis by simp
    next
      case (Inr u)
      obtain res' r'' sent' where rec:
        "delete_matching del r' part_name folder_id parts = (res', r'', sent')"
        using prod_cases3 by blast
      note ih = Cons.IH [OF rec]
      show ?thesis
      proof (cases res')
        case (Inl e)
        with Cons.prems True d Inr rec have "res = Inl e" "sent = part # sent'" by simp_all
        with ih True show ?thesis by simp
      next
        case (Inr n)
        with Cons.prems True d \<open>resp = Inr u\<close> rec
        have "res = Inr (n + 1)" "sent = part # sent'" by simp_all
        with ih True Inr show ?thesis by simp
      qed
    qed
  qed
qed

text \<open>
  C6.  \<^verbatim>\<open>delete_file\<close> sends a deletion only for parts of the search answer whose name
  equals the derived base-name without extension and whose \<^verbatim>\<open>folderId\<close> equals the
  identifier resolved from the cache, which is \<^verbatim>\<open>None\<close> when the folder path is not a key
  of the cache.  The deletions sent are the matching parts in the order of the answer, up
  to the first deletion that fails; when the call returns without an exception, they are
  exactly the matching parts, and the result says whether there was one.
\<close>

theorem delete_file_matches_name_and_folder:
  assumes "delete_file search del r cache relative_path = (res, r2, sent)"
  shows "(\<forall>part \<in> set sent.
            dict_get part ''name'' = JStr (derived_part_name relative_path)
            \<and> dict_get part ''folderId'' = resolved_folder_id cache relative_path)
       \<and> (\<not> dict_has cache (derived_folder_path relative_path)
            \<longrightarrow> resolved_folder_id cache relative_path = JNull)
       \<and> (\<forall>parts r1. search r (derived_part_name relative_path) = (Inr (PartsList parts), r1) \<longrightarrow>
            prefix sent
              (filter (\<lambda>part. dict_get part ''name'' = JStr (derived_part_name relative_path)
                        \<and> dict_get part ''folderId'' = resolved_folder_id cache relative_path) parts)
            \<and> (\<forall>found. res = Inr found \<longrightarrow>
                  sent = filter (\<lambda>part. dict_get part ''name'' = JStr (derived_part_name relative_path)
                        \<and> dict_get part ''folderId'' = resolved_folder_id cache relative_path) parts
                  \<and> found = (sent \<noteq> [])))"
proof -
  let ?name = "derived_part_name relative_path"
  let ?fid = "resolved_folder_id cache relative_path"
  let ?m = "\<lambda>part. dict_get part ''name'' = JStr ?name \<and> dict_get part ''folderId'' = ?fid"
  have none: "\<not> dict_has cache (derived_folder_path relative_path) \<longrightarrow> ?fid = JNull"
    by (simp add: resolved_folder_id_def Let_def)
  obtain resp r1 where s: "search r ?name = (resp, r1)" by (cases "search r ?name")
  have main: "(\<forall>part \<in> set sent. ?m part)
       \<and> (\<forall>parts. resp = Inr (PartsList parts) \<longrightarrow>
            prefix sent (filter ?m parts)
            \<and> (\<forall>found. res = Inr found \<longrightarrow> sent = filter ?m parts \<and> found = (sent \<noteq> [])))"
  proof (cases resp)
    case (Inl e)
    with assms s show ?thesis by (simp add: delete_file_def Let_def)
  next
    case (Inr answer)
    show ?thesis
    proof (cases answer)
      case NotAList
      with assms s Inr show ?thesis by (simp add: delete_file_def Let_def)
    next
      case (PartsList parts)
      obtain res' r'' sent' where loop:
        "delete_matching del r1 ?name ?fid parts = (res', r'', sent')"
        using prod_cases3 by blast
      note l = delete_matching_sent [OF loop]
      have df: "delete_file search del r cache relative_path
                = (case res' of Inl e \<Rightarrow> (Inl (DeleteFailed e), r'', sent')
                   | Inr n \<Rightarrow> (Inr (n > 0), r'', sent'))"
        using s Inr PartsList loop by (simp add: delete_file_def Let_def split: sum.splits)
      have sent: "sent = sent'"
        using assms unfolding df by (cases res') simp_all
      have C: "\<forall>found. res = Inr found \<longrightarrow> sent = filter ?m parts \<and> found = (sent \<noteq> [])"
      proof (cases res')
        case (Inl e)
        with assms have "res = Inl (DeleteFailed e)" unfolding df by simp
        then show ?thesis by simp
      next
        case (Inr n)
        with l have n: "n = length sent'" and f: "sent' = filter ?m parts" by simp_all
        from assms Inr have "res = Inr (n > 0)" unfolding df by simp
        with n f sent show ?thesis by simp
      qed
      have B: "prefix sent (filter ?m parts)" using l sent by simp
      then have "set sent \<subseteq> set (filter ?m parts)" by (rule set_mono_prefix)
      then have A: "\<forall>part \<in> set sent. ?m part" by auto
      have X: "prefix sent (filter ?m ps)
            \<and> (\<forall>found. res = Inr found \<longrightarrow> sent = filter ?m ps \<and> found = (sent \<noteq> []))"
        if "resp = Inr (PartsList ps)" for ps
      proof -
        from that \<open>resp = Inr answer\<close> PartsList have ps: "ps = parts" by simp
        show ?thesis unfolding ps using B C by (rule conjI)
      qed
      show ?thesis
      proof (rule conjI)
        show "\<forall>part \<in> set sent. ?m part" by (rule A)
        show "\<forall>parts. resp = Inr (PartsList parts) \<longrightarrow>
            prefix sent (filter ?m parts)
            \<and> (\<forall>found. res = Inr found \<longrightarrow> sent = filter ?m parts \<and> found = (sent \<noteq> []))"
        proof (intro allI impI)
          fix ps assume "resp = Inr (PartsList ps)"
          then show "prefix sent (filter ?m ps)
            \<and> (\<forall>found. res = Inr found \<longrightarrow> sent = filter ?m ps \<and> found = (sent \<noteq> []))"
            by (rule X)
        qed
      qed
    qed
  qed
  from main have A: "\<forall>part \<in> set sent. ?m part"
    and R: "\<forall>parts. resp = Inr (PartsList parts) \<longrightarrow>
            prefix sent (filter ?m parts)
            \<and> (\<forall>found. res = Inr found \<longrightarrow> sent = filter ?m parts \<and> found = (sent \<noteq> []))"
    by (rule conjunct1, rule conjunct2)
  have S: "\<forall>parts r1'. search r ?name = (Inr (PartsList parts), r1') \<longrightarrow>
            prefix sent (filter ?m parts)
            \<and> (\<forall>found. res = Inr found \<longrightarrow> sent = filter ?m parts \<and> found = (sent \<noteq> []))"
  proof (intro allI impI)
    fix ps r1' assume "search r ?name = (Inr (PartsList ps), r1')"
    with s have "resp = Inr (PartsList ps)" by simp
    from R [rule_format, OF this] show "prefix sent (filter ?m ps)
            \<and> (\<forall>found. res = Inr found \<longrightarrow> sent = filter ?m ps \<and> found = (sent \<noteq> []))" .
  qed
  show ?thesis
    by (rule conjI [OF A conjI [OF none S]])
qed

theorem delete_file_matches_name_and_folder_witness:
  "delete_file
     (answer_parts
        [[(''id'', JStr ''p1''), (''name'', JStr ''B''), (''folderId'', JStr ''fx'')],
         [(''id'', JStr ''p2''), (''name'', JStr ''B''), (''folderId'', JNull)],
         [(''id'', JStr ''p3''), (''name'', JStr ''B''), (''folderId'', JStr ''fz'')],
         [(''id'', JStr ''p4''), (''name'', JStr ''C''), (''folderId'', JStr ''fx'')]])
     accept_delete 0 [(''X'', JStr ''fx'')] ''X/B.stl''
   = (Inr True, 2, [[(''id'', JStr ''p1''), (''name'', JStr ''B''), (''folderId'', JStr ''fx'')]])
   \<and> derived_part_name ''X/B.stl'' = ''B''
   \<and> resolved_folder_id [(''X'', JStr ''fx'')] ''X/B.stl'' = JStr ''fx''
   \<and> dict_get [(''id'', JStr ''p1''), (''name'', JStr ''B''), (''folderId'', JStr ''fx'')] ''name''
       = JStr (derived_part_name ''X/B.stl'')
   \<and> dict_get [(''id'', JStr ''p1''), (''name'', JStr ''B''), (''folderId'', JStr ''fx'')] ''folderId''
       = resolved_folder_id [(''X'', JStr ''fx'')] ''X/B.stl''"
proof -
  have run: "delete_file
     (answer_parts
        [[(''id'', JStr ''p1''), (''name'', JStr ''B''), (''folderId'', JStr ''fx'')],
         [(''id'', JStr ''p2''), (''name'', JStr ''B''), (''folderId'', JNull)],
         [(''id'', JStr ''p3''), (''name'', JStr ''B''), (''folderId'', JStr ''fz'')],
         [(''id'', JStr ''p4''), (''name'', JStr ''C''), (''folderId'', JStr ''fx'')]])
     accept_delete 0 [(''X'', JStr ''fx'')] ''X/B.stl''
   = (Inr True, 2, [[(''id'', JStr ''p1''), (''name'', JStr ''B''), (''folderId'', JStr ''fx'')]])"
    by code_simp
  have name: "derived_part_name ''X/B.stl'' = ''B''" by code_simp
  have fid: "resolved_folder_id [(''X'', JStr ''fx'')] ''X/B.stl'' = JStr ''fx''" by code_simp
  from delete_file_matches_name_and_folder [OF run]
  have "\<forall>part \<in> set [[(''id'', JStr ''p1''), (''name'', JStr ''B''), (''folderId'', JStr ''fx'')]].
         dict_get part ''name'' = JStr (derived_part_name ''X/B.stl'')
         \<and> dict_get part ''folderId'' = resolved_folder_id [(''X'', JStr ''fx'')] ''X/B.stl''"
    by (rule conjunct1)
  then have "dict_get [(''id'', JStr ''p1''), (''name'', JStr ''B''), (''folderId'', JStr ''fx'')] ''name''
       = JStr (derived_part_name ''X/B.stl'')"
    and "dict_get [(''id'', JStr ''p1''), (''name'', JStr ''B''), (''folderId'', JStr ''fx'')] ''folderId''
       = resolved_folder_id [(''X'', JStr ''fx'')] ''X/B.stl''"
    by simp_all
  with run name fid show ?thesis by (intro conjI)
qed

lemma delete_file_unscoped_example:
  "delete_file
     (answer_parts
        [[(''id'', JStr ''p1''), (''name'', JStr ''B''), (''folderId'', JStr ''fx'')],
         [(''id'', JStr ''p2''), (''name'', JStr ''B''), (''folderId'', JNull)]])
     accept_delete 0 [] ''X/B.stl''
   = (Inr True, 2, [[(''id'', JStr ''p2''), (''name'', JStr ''B''), (''folderId'', JNull)]])"
  by code_simp

subsection \<open>The size ceiling\<close>

text \<open>
  C9.  For a file whose size exceeds 500 MiB, the \<^verbatim>\<open>upload\<close> branch of the worker makes
  no call to the client, whatever else holds.  When the file exists after the settle
  delay, one line is logged: the file is too large, or, for a path outside the watched
  directory, the path is blocked.
\<close>

theorem oversized_upload_never_sent:
  assumes "getsize env file_path = Inr file_size" and "file_size > 500 * 1024 * 1024"
  shows "snd (worker_upload env client_upload file_path) = []
       \<and> snd (handler_upload_file env client_upload file_path) = []
       \<and> (path_exists env file_path \<longrightarrow>
            fst (worker_upload env client_upload file_path)
            = (if is_safe_path env file_path then [FileTooLarge file_path]
               else [BlockedSuspiciousPath file_path]))"
  using assms by (simp add: worker_upload_def handler_upload_file_def max_file_size_def)

theorem oversized_upload_never_sent_witness:
  "getsize (one_file ''/w/big.stl'' 524288001) ''/w/big.stl'' = Inr 524288001
   \<and> (524288001::nat) > 500 * 1024 * 1024
   \<and> path_exists (one_file ''/w/big.stl'' 524288001) ''/w/big.stl''
   \<and> worker_upload (one_file ''/w/big.stl'' 524288001) upload_ok ''/w/big.stl''
      = ([FileTooLarge ''/w/big.stl''], [])
   \<and> worker_upload (one_file ''/w/big.stl'' 524288000) upload_ok ''/w/big.stl''
      = ([Uploaded ''/w/big.stl''], [ClientUploadFile ''big.stl'' ''/w/big.stl''])"
proof -
  have h1: "getsize (one_file ''/w/big.stl'' 524288001) ''/w/big.stl'' = Inr 524288001"
    by (simp add: one_file_def)
  have h2: "(524288001::nat) > 500 * 1024 * 1024" by simp
  have h3: "path_exists (one_file ''/w/big.stl'' 524288001) ''/w/big.stl''"
    by (simp add: one_file_def)
  have h4: "is_safe_path (one_file ''/w/big.stl'' 524288001) ''/w/big.stl''"
    by (simp add: one_file_def)
  have ok: "worker_upload (one_file ''/w/big.stl'' 524288000) upload_ok ''/w/big.stl''
      = ([Uploaded ''/w/big.stl''], [ClientUploadFile ''big.stl'' ''/w/big.stl''])"
    by (simp add: worker_upload_def handler_upload_file_def max_file_size_def one_file_def
          upload_ok_def)
  from oversized_upload_never_sent [OF h1 h2, of upload_ok] h3 h4
  have "worker_upload (one_file ''/w/big.stl'' 524288001) upload_ok ''/w/big.stl''
      = ([FileTooLarge ''/w/big.stl''], [])"
    by (simp add: prod_eq_iff)
  with h1 h2 h3 ok show ?thesis by (intro conjI)
qed

end
